theory Spec2Isabelle
  imports Main "HOL-Library.Sublist" "HOL-Library.AList"
begin

section \<open>The file system seen through pathlib, shutil and zipfile\<close>

text \<open>
  \<^verbatim>\<open>downloads_organizer.py\<close> reaches the disk only through \<^verbatim>\<open>pathlib.Path\<close>
  (\<^verbatim>\<open>exists\<close>, \<^verbatim>\<open>is_file\<close>, \<^verbatim>\<open>rglob\<close>, \<^verbatim>\<open>stat\<close>, \<^verbatim>\<open>mkdir\<close>, \<^verbatim>\<open>unlink\<close>),
  \<^verbatim>\<open>shutil.move\<close>, \<^verbatim>\<open>open\<close> and \<^verbatim>\<open>zipfile.ZipFile\<close>. The disk is an explicit store: an
  association list from absolute paths (lists of components) to nodes, read with
  \<open>map_of\<close>. A regular file carries its bytes, its modification time and whether it can
  be opened for reading; a directory carries whether entries can be created in and removed
  from it. These two permission bits are the causes of failure of the model; every
  primitive returns the \<^verbatim>\<open>OSError\<close> Python would raise as a value.

  Times are integers: microseconds on the scale of \<^verbatim>\<open>datetime\<close> (from 0001-01-01 00:00).
  \<^verbatim>\<open>datetime.fromtimestamp(item.stat().st_mtime)\<close> is the identity here: the conversion
  of the floating-point \<^verbatim>\<open>st_mtime\<close> to a local \<^verbatim>\<open>datetime\<close> is not modelled.
\<close>

type_synonym path = "string list"

datatype node =
    File (content: string) (st_mtime: int) (readable: bool)
  | Dir (writable: bool)

type_synonym fs = "(path \<times> node) list"

datatype errno = EEXIST | EACCES | ENOENT | ENOTDIR | EISDIR

datatype exn = OSError errno path | OverflowError

text \<open>The envelope of every tool: \<^verbatim>\<open>{"ok": False, "error": ...}\<close> or \<^verbatim>\<open>{"ok": True, "data": ...}\<close>.
  A call yields the disk it leaves and either the envelope it returns (\<open>Inr\<close>) or the
  exception that leaves the function uncaught (\<open>Inl\<close>).\<close>

datatype 'a envelope = Failure string | Success 'a

type_synonym 'a call = "fs \<times> (exn + 'a envelope)"

definition lookup :: "fs \<Rightarrow> path \<Rightarrow> node option" where
  "lookup fs p = map_of fs p"

definition path_exists :: "fs \<Rightarrow> path \<Rightarrow> bool" where
  "path_exists fs p = (lookup fs p \<noteq> None)"

definition is_file :: "fs \<Rightarrow> path \<Rightarrow> bool" where
  "is_file fs p = (case lookup fs p of Some (File c m r) \<Rightarrow> True | _ \<Rightarrow> False)"

definition is_dir :: "fs \<Rightarrow> path \<Rightarrow> bool" where
  "is_dir fs p = (case lookup fs p of Some (Dir w) \<Rightarrow> True | _ \<Rightarrow> False)"

definition parent :: "path \<Rightarrow> path" where
  "parent p = butlast p"

definition name :: "path \<Rightarrow> string" where
  "name p = (if p = [] then [] else last p)"

definition st_size :: "node \<Rightarrow> nat" where
  "st_size n = (case n of File c m r \<Rightarrow> length c | Dir w \<Rightarrow> 0)"

text \<open>\<^verbatim>\<open>path.rglob('*')\<close>: every entry below \<open>path\<close>, each once; nothing when \<open>path\<close> is not a
  directory. The loops of the organizer consume the generator while they change the disk;
  the model takes the listing when the loop starts. The entries a loop adds under the root
  while it runs are the destination folders and the files already moved into them, which
  the loop would skip. The order of the listing is the order of the store (the order in
  which a real directory is enumerated is the operating system's).\<close>

definition rglob :: "fs \<Rightarrow> path \<Rightarrow> path list" where
  "rglob fs path =
     (if is_dir fs path then remdups (filter (strict_prefix path) (map fst fs)) else [])"

text \<open>\<^verbatim>\<open>item.relative_to(path)\<close> for an item of the listing of \<open>path\<close>. Where the source
  turns the relative path into a string (the \<^verbatim>\<open>file\<close> and \<^verbatim>\<open>original\<close> fields of the
  reports, the entry names of the container), the model keeps its components.\<close>

definition relative_to :: "path \<Rightarrow> path \<Rightarrow> path" where
  "relative_to item path = drop (length path) item"


definition str_path :: "path \<Rightarrow> string" where
  "str_path p = concat (map (\<lambda>c. ''/'' @ c) p)"

subsection \<open>Primitives that change the disk\<close>

definition entry_writable :: "fs \<Rightarrow> path \<Rightarrow> errno option" where
  "entry_writable fs p =
     (case lookup fs (parent p) of
        None \<Rightarrow> Some ENOENT
      | Some (File c m r) \<Rightarrow> Some ENOTDIR
      | Some (Dir w) \<Rightarrow> if w then None else Some EACCES)"

definition unlink :: "fs \<Rightarrow> path \<Rightarrow> exn + fs" where
  "unlink fs p =
     (case lookup fs p of
        None \<Rightarrow> Inl (OSError ENOENT p)
      | Some (Dir w) \<Rightarrow> Inl (OSError EISDIR p)
      | Some (File c m r) \<Rightarrow>
          (case entry_writable fs p of
             Some e \<Rightarrow> Inl (OSError e p)
           | None \<Rightarrow> Inr (AList.delete p fs)))"

definition os_mkdir :: "fs \<Rightarrow> path \<Rightarrow> exn + fs" where
  "os_mkdir fs d =
     (if path_exists fs d then Inl (OSError EEXIST d)
      else (case entry_writable fs d of
              Some e \<Rightarrow> Inl (OSError e d)
            | None \<Rightarrow> Inr (AList.update d (Dir True) fs)))"

text \<open>\<^verbatim>\<open>Path.mkdir(exist_ok=True)\<close>: an \<^verbatim>\<open>OSError\<close> of \<^verbatim>\<open>os.mkdir\<close> is dropped when the path
  is a directory, and raised again otherwise.\<close>

definition mkdir_exist_ok :: "fs \<Rightarrow> path \<Rightarrow> exn + fs" where
  "mkdir_exist_ok fs d =
     (case os_mkdir fs d of
        Inr fs' \<Rightarrow> Inr fs'
      | Inl e \<Rightarrow> if is_dir fs d then Inr fs else Inl e)"



text \<open>\<^verbatim>\<open>shutil.move(src, dst)\<close> for a regular file and a destination that does not exist:
  \<^verbatim>\<open>os.rename\<close>, and when that raises \<^verbatim>\<open>OSError\<close>, \<^verbatim>\<open>copy2\<close> followed by
  \<^verbatim>\<open>os.unlink(src)\<close>. The copy keeps bytes, time and mode. A failure after the copy leaves
  the copy behind, so the disk is returned together with the exception.\<close>

definition os_rename :: "fs \<Rightarrow> path \<Rightarrow> path \<Rightarrow> exn + fs" where
  "os_rename fs src dst =
     (case lookup fs src of
        None \<Rightarrow> Inl (OSError ENOENT src)
      | Some n \<Rightarrow>
          (case entry_writable fs src of
             Some e \<Rightarrow> Inl (OSError e src)
           | None \<Rightarrow>
               (case entry_writable fs dst of
                  Some e \<Rightarrow> Inl (OSError e dst)
                | None \<Rightarrow> Inr (AList.update dst n (AList.delete src fs)))))"

definition copy2 :: "fs \<Rightarrow> path \<Rightarrow> path \<Rightarrow> exn + fs" where
  "copy2 fs src dst =
     (case lookup fs src of
        None \<Rightarrow> Inl (OSError ENOENT src)
      | Some (Dir w) \<Rightarrow> Inl (OSError EISDIR src)
      | Some (File c m r) \<Rightarrow>
          if \<not> r then Inl (OSError EACCES src)
          else (case entry_writable fs dst of
                  Some e \<Rightarrow> Inl (OSError e dst)
                | None \<Rightarrow> Inr (AList.update dst (File c m r) fs)))"

definition shutil_move :: "fs \<Rightarrow> path \<Rightarrow> path \<Rightarrow> fs \<times> exn option" where
  "shutil_move fs src dst =
     (case os_rename fs src dst of
        Inr fs' \<Rightarrow> (fs', None)
      | Inl e0 \<Rightarrow>
          (case copy2 fs src dst of
             Inl e \<Rightarrow> (fs, Some e)
           | Inr fs1 \<Rightarrow>
               (case unlink fs1 src of
                  Inl e \<Rightarrow> (fs1, Some e)
                | Inr fs2 \<Rightarrow> (fs2, None))))"

section \<open>Names, suffixes and categories\<close>

text \<open>\<^verbatim>\<open>PurePath.suffix\<close> and \<^verbatim>\<open>PurePath.stem\<close>: with \<open>i = name.rfind('.')\<close>, the suffix is
  \<open>name[i:]\<close> and the stem \<open>name[:i]\<close> when \<open>0 < i < len(name) - 1\<close>; otherwise the suffix is
  empty and the stem is the name.\<close>

definition rfind_dot :: "string \<Rightarrow> nat option" where
  "rfind_dot s =
     (if CHR ''.'' \<in> set s
      then Some (length s - Suc (length (takeWhile (\<lambda>c. c \<noteq> CHR ''.'') (rev s))))
      else None)"

definition path_suffix :: "string \<Rightarrow> string" where
  "path_suffix s =
     (case rfind_dot s of
        Some i \<Rightarrow> if 0 < i \<and> i < length s - 1 then drop i s else []
      | None \<Rightarrow> [])"

definition stem :: "string \<Rightarrow> string" where
  "stem s =
     (case rfind_dot s of
        Some i \<Rightarrow> if 0 < i \<and> i < length s - 1 then take i s else s
      | None \<Rightarrow> s)"

text \<open>\<^verbatim>\<open>str.lower\<close> on the ASCII letters; other bytes are left as they are.\<close>

definition lower_char :: "char \<Rightarrow> char" where
  "lower_char c =
     (let k = (of_char c :: nat) in if 65 \<le> k \<and> k \<le> 90 then char_of (k + 32) else c)"

definition lower :: "string \<Rightarrow> string" where
  "lower s = map lower_char s"

definition FILE_CATEGORIES :: "(string \<times> string list) list" where
  "FILE_CATEGORIES =
     [(''Images'', [''.jpg'', ''.jpeg'', ''.png'', ''.gif'', ''.bmp'', ''.svg'', ''.webp'', ''.ico'']),
      (''Documents'', [''.pdf'', ''.doc'', ''.docx'', ''.txt'', ''.rtf'', ''.odt'', ''.xls'', ''.xlsx'',
                      ''.ppt'', ''.pptx'']),
      (''Videos'', [''.mp4'', ''.avi'', ''.mkv'', ''.mov'', ''.wmv'', ''.flv'', ''.webm'']),
      (''Audio'', [''.mp3'', ''.wav'', ''.flac'', ''.aac'', ''.ogg'', ''.m4a'']),
      (''Archives'', [''.zip'', ''.rar'', ''.7z'', ''.tar'', ''.gz'', ''.bz2'']),
      (''Code'', [''.py'', ''.js'', ''.java'', ''.cpp'', ''.c'', ''.html'', ''.css'', ''.json'', ''.xml'',
                 ''.sql'']),
      (''Programs'', [''.exe'', ''.msi'', ''.dmg'', ''.deb'', ''.rpm'', ''.apk'']),
      (''Other'', [])]"

fun category_of :: "(string \<times> string list) list \<Rightarrow> string \<Rightarrow> string" where
  "category_of [] ext = ''Other''"
| "category_of ((category, extensions) # rest) ext =
     (if ext \<in> set extensions then category else category_of rest ext)"

definition get_category :: "path \<Rightarrow> string" where
  "get_category file_path = category_of FILE_CATEGORIES (lower (path_suffix (name file_path)))"

text \<open>The argument of \<^verbatim>\<open>get_downloads_path\<close> is the path already split into components;
  \<open>None\<close> stands for \<^verbatim>\<open>None\<close> and for the empty string, which both select the default.
  \<open>home\<close> is \<^verbatim>\<open>Path.home()\<close>.\<close>

definition get_downloads_path :: "path \<Rightarrow> path option \<Rightarrow> path" where
  "get_downloads_path home p = (case p of Some q \<Rightarrow> q | None \<Rightarrow> home @ [''Downloads''])"

section \<open>Dates and sizes\<close>



text \<open>The integer nearest to \<open>n / d\<close> for integers \<open>n\<close> and \<open>d > 0\<close>, a half going to the even
  neighbour, as \<^verbatim>\<open>round\<close> does.\<close>

definition round_half_even :: "int \<Rightarrow> int \<Rightarrow> int" where
  "round_half_even n d =
     (let q = n div d; r = n mod d in
      if 2 * r < d then q else if d < 2 * r then q + 1 else if even q then q else q + 1)"

text \<open>\<^verbatim>\<open>round(size / (1024 * 1024), 2)\<close>, in hundredths of a binary megabyte. The quotient
  is exact in floating point (a division by a power of two) and \<^verbatim>\<open>round\<close> is correctly
  rounded, so the hundredths are those of the exact quotient.\<close>

definition size_mb :: "nat \<Rightarrow> int" where
  "size_mb bytes = round_half_even (int bytes * 100) (1024 * 1024)"

section \<open>clean-old-files\<close>





section \<open>Moving without overwriting\<close>

text \<open>\<^verbatim>\<open>str(counter)\<close>: the decimal digits of a natural number.\<close>

definition digit_char :: "nat \<Rightarrow> char" where
  "digit_char d = char_of (48 + d)"

fun str_nat :: "nat \<Rightarrow> string" where
  "str_nat n = (if n < 10 then [digit_char n] else str_nat (n div 10) @ [digit_char (n mod 10)])"

declare str_nat.simps [simp del]

text \<open>The \<^verbatim>\<open>while target_path.exists()\<close> loop of lines 68 to 70 (and 186 to 188), with its
  two variables \<open>target_path\<close> and \<open>counter\<close>. It ends because the store is finite: a name
  that exists is no longer than the store is large, and the decimal numeral of the counter
  grows beyond any length.\<close>

definition store_size :: "fs \<Rightarrow> nat" where
  "store_size fs = sum_list (map (\<lambda>(p, n). sum_list (map length p)) fs)"

lemma str_nat_bound: "n < 10 ^ length (str_nat n)"
proof (induction n rule: str_nat.induct)
  case (1 n)
  show ?case
  proof (cases "n < 10")
    case True
    then show ?thesis by (subst str_nat.simps) simp
  next
    case False
    with 1 have "n div 10 < 10 ^ length (str_nat (n div 10))" by simp
    then have "n < 10 * 10 ^ length (str_nat (n div 10))" by linarith
    with False show ?thesis by (subst str_nat.simps) simp
  qed
qed

lemma component_le_store_size:
  assumes "map_of fs p \<noteq> None" and "s \<in> set p"
  shows "length s \<le> store_size fs"
proof -
  from assms(1) obtain n where "(p, n) \<in> set fs"
    by (auto dest: map_of_SomeD)
  then have "sum_list (map length p) \<in> set (map (\<lambda>(p, n). sum_list (map length p)) fs)"
    by force
  then have "sum_list (map length p) \<le> store_size fs"
    unfolding store_size_def by (simp add: member_le_sum_list)
  moreover from assms(2) have "length s \<le> sum_list (map length p)"
    by (simp add: member_le_sum_list)
  ultimately show ?thesis by linarith
qed

lemma existing_candidate_bound:
  assumes "path_exists fs (target_dir @ [stm @ ''_'' @ str_nat counter @ sfx])"
  shows "counter < 10 ^ store_size fs"
proof -
  from assms have "length (stm @ ''_'' @ str_nat counter @ sfx) \<le> store_size fs"
    unfolding path_exists_def lookup_def by (rule component_le_store_size) simp
  then have "length (str_nat counter) \<le> store_size fs" by simp
  then have "(10::nat) ^ length (str_nat counter) \<le> 10 ^ store_size fs"
    by (simp add: power_increasing)
  with str_nat_bound [of counter] show ?thesis by linarith
qed

function free_target :: "fs \<Rightarrow> path \<Rightarrow> string \<Rightarrow> string \<Rightarrow> path \<Rightarrow> nat \<Rightarrow> path" where
  "free_target fs target_dir stm sfx target_path counter =
     (if path_exists fs target_path
      then free_target fs target_dir stm sfx
             (target_dir @ [stm @ ''_'' @ str_nat counter @ sfx]) (counter + 1)
      else target_path)"
  by pat_completeness auto
termination
proof (relation "measure (\<lambda>(fs, target_dir, stm, sfx, target_path, counter).
          if path_exists fs target_path then Suc (10 ^ store_size fs - counter) else 0)")
  show "wf (measure (\<lambda>(fs, target_dir, stm, sfx, target_path, counter).
          if path_exists fs target_path then Suc (10 ^ store_size fs - counter) else 0))"
    by simp
next
  fix fs :: fs and target_dir :: path and stm sfx :: string and target_path :: path
    and counter :: nat
  assume "path_exists fs target_path"
  then show "((fs, target_dir, stm, sfx, target_dir @ [stm @ ''_'' @ str_nat counter @ sfx],
               counter + 1),
              (fs, target_dir, stm, sfx, target_path, counter))
             \<in> measure (\<lambda>(fs, target_dir, stm, sfx, target_path, counter).
                  if path_exists fs target_path then Suc (10 ^ store_size fs - counter) else 0)"
    using existing_candidate_bound [of fs target_dir stm counter sfx] by auto
qed

declare free_target.simps [simp del]

text \<open>Lines 66 to 71 (and 184 to 189): the first free name, then the move.\<close>

definition move_unique :: "fs \<Rightarrow> path \<Rightarrow> path \<Rightarrow> fs \<times> exn option" where
  "move_unique fs item target_dir =
     (let target_path = free_target fs target_dir (stem (name item)) (path_suffix (name item))
                          (target_dir @ [name item]) 1
      in shutil_move fs item target_path)"

text \<open>\<^verbatim>\<open>str(e)\<close> of an \<^verbatim>\<open>OSError\<close>, as far as the report shows it.\<close>

definition str_errno :: "errno \<Rightarrow> string" where
  "str_errno e =
     (case e of EEXIST \<Rightarrow> ''[Errno 17] File exists'' | EACCES \<Rightarrow> ''[Errno 13] Permission denied''
      | ENOENT \<Rightarrow> ''[Errno 2] No such file or directory'' | ENOTDIR \<Rightarrow> ''[Errno 20] Not a directory''
      | EISDIR \<Rightarrow> ''[Errno 21] Is a directory'')"

definition str_exn :: "exn \<Rightarrow> string" where
  "str_exn e =
     (case e of OSError k p \<Rightarrow> str_errno k @ '': '' @ [CHR 0x27] @ str_path p @ [CHR 0x27]
      | OverflowError \<Rightarrow> ''date value out of range'')"

text \<open>\<^verbatim>\<open>moved_files[key].append(v)\<close> on a \<^verbatim>\<open>defaultdict(list)\<close>: keys stay in the order of
  their first use.\<close>

fun dict_append :: "('k \<times> 'v list) list \<Rightarrow> 'k \<Rightarrow> 'v \<Rightarrow> ('k \<times> 'v list) list" where
  "dict_append [] k v = [(k, [v])]"
| "dict_append ((k', vs) # d) k v =
     (if k' = k then (k', vs @ [v]) # d else (k', vs) # dict_append d k v)"

section \<open>organize-by-type and organize-by-date\<close>

record move_report =
  mr_moved_files :: "(string \<times> string list) list"
  mr_total_files :: nat
  mr_folders :: nat
  mr_errors :: "string list"
  mr_dry_run :: bool

text \<open>\<open>mr_folders\<close> is the key \<^verbatim>\<open>categories\<close> of organize-by-type and \<^verbatim>\<open>date_folders\<close> of
  organize-by-date: \<^verbatim>\<open>len(moved_files)\<close> in both.

  The loop of lines 55 to 76. \<^verbatim>\<open>target_dir.mkdir(exist_ok=True)\<close> stands before the
  \<^verbatim>\<open>try\<close>: its exception ends the call. An exception of the move is caught and appended
  to \<open>errors\<close>.\<close>

fun organize_by_type_loop ::
  "path \<Rightarrow> bool \<Rightarrow> path list \<Rightarrow> fs \<times> (string \<times> string list) list \<times> string list \<Rightarrow>
   fs \<times> (exn + (string \<times> string list) list \<times> string list)"
where
  "organize_by_type_loop path dry_run [] (fs, moved_files, errors) = (fs, Inr (moved_files, errors))"
| "organize_by_type_loop path dry_run (item # items) (fs, moved_files, errors) =
     (if is_file fs item then
        (let category = get_category item; target_dir = path @ [category] in
         if parent item = target_dir
         then organize_by_type_loop path dry_run items (fs, moved_files, errors)
         else if \<not> dry_run then
           (case mkdir_exist_ok fs target_dir of
              Inl e \<Rightarrow> (fs, Inl e)
            | Inr fs1 \<Rightarrow>
                (case move_unique fs1 item target_dir of
                   (fs2, None) \<Rightarrow>
                     organize_by_type_loop path dry_run items
                       (fs2, dict_append moved_files category (name item), errors)
                 | (fs2, Some e) \<Rightarrow>
                     organize_by_type_loop path dry_run items
                       (fs2, moved_files, errors @ [name item @ '': '' @ str_exn e])))
         else organize_by_type_loop path dry_run items
                (fs, dict_append moved_files category (name item), errors))
      else organize_by_type_loop path dry_run items (fs, moved_files, errors))"

definition move_report_of :: "(string \<times> string list) list \<Rightarrow> string list \<Rightarrow> bool \<Rightarrow> move_report" where
  "move_report_of moved_files errors dry_run =
     \<lparr>mr_moved_files = moved_files,
      mr_total_files = sum_list (map (\<lambda>(k, files). length files) moved_files),
      mr_folders = length moved_files, mr_errors = errors, mr_dry_run = dry_run\<rparr>"

definition organize_by_type_sync :: "path \<Rightarrow> fs \<Rightarrow> path option \<Rightarrow> bool \<Rightarrow> move_report call" where
  "organize_by_type_sync home fs downloads_path dry_run =
     (let path = get_downloads_path home downloads_path in
      if \<not> path_exists fs path
      then (fs, Inr (Failure (''Path '' @ str_path path @ '' does not exist'')))
      else (case organize_by_type_loop path dry_run (rglob fs path) (fs, [], []) of
              (fs', Inl e) \<Rightarrow> (fs', Inl e)
            | (fs', Inr (moved_files, errors)) \<Rightarrow>
                (fs', Inr (Success (move_report_of moved_files errors dry_run)))))"



section \<open>find-duplicates\<close>

text \<open>\<^verbatim>\<open>get_file_hash\<close> opens the file and feeds \<^verbatim>\<open>hashlib.md5\<close> in chunks of 4096 bytes, which
  is the digest of the whole content. The digest function is the parameter \<open>md5\<close>.\<close>

definition get_file_hash :: "(string \<Rightarrow> string) \<Rightarrow> fs \<Rightarrow> path \<Rightarrow> exn + string" where
  "get_file_hash md5 fs file_path =
     (case lookup fs file_path of
        None \<Rightarrow> Inl (OSError ENOENT file_path)
      | Some (Dir w) \<Rightarrow> Inl (OSError EISDIR file_path)
      | Some (File c m r) \<Rightarrow> if r then Inr (md5 c) else Inl (OSError EACCES file_path))"

definition stat :: "fs \<Rightarrow> path \<Rightarrow> exn + node" where
  "stat fs p = (case lookup fs p of None \<Rightarrow> Inl (OSError ENOENT p) | Some n \<Rightarrow> Inr n)"

text \<open>The modification time of a directory is not part of the store.\<close>

definition mtime_of :: "node \<Rightarrow> int" where
  "mtime_of n = (case n of File c m r \<Rightarrow> m | Dir w \<Rightarrow> 0)"

record duplicate =
  dup_file :: path
  dup_size :: nat
  dup_original :: path

record dup_report =
  dr_duplicates :: "duplicate list"
  dr_count :: nat
  dr_space_saved_mb :: int
  dr_deleted :: bool

text \<open>The first loop, lines 89 to 95: a file whose hash cannot be computed is left out.\<close>

fun hash_files ::
  "(string \<Rightarrow> string) \<Rightarrow> fs \<Rightarrow> path list \<Rightarrow> (string \<times> path list) list \<Rightarrow> (string \<times> path list) list"
where
  "hash_files md5 fs [] file_hashes = file_hashes"
| "hash_files md5 fs (item # items) file_hashes =
     (if is_file fs item then
        (case get_file_hash md5 fs item of
           Inr file_hash \<Rightarrow> hash_files md5 fs items (dict_append file_hashes file_hash item)
         | Inl e \<Rightarrow> hash_files md5 fs items file_hashes)
      else hash_files md5 fs items file_hashes)"

text \<open>\<^verbatim>\<open>files.sort(key=lambda x: x.stat().st_mtime, reverse=True)\<close>: the keys are computed
  first, one \<^verbatim>\<open>stat\<close> per element, then the list is sorted; the sort is stable, also
  with \<^verbatim>\<open>reverse=True\<close>.\<close>

fun sort_keys :: "fs \<Rightarrow> path list \<Rightarrow> exn + (int \<times> path) list" where
  "sort_keys fs [] = Inr []"
| "sort_keys fs (x # xs) =
     (case stat fs x of
        Inl e \<Rightarrow> Inl e
      | Inr n \<Rightarrow> (case sort_keys fs xs of
                   Inl e \<Rightarrow> Inl e
                 | Inr ks \<Rightarrow> Inr ((mtime_of n, x) # ks)))"

definition sort_mtime_reverse :: "fs \<Rightarrow> path list \<Rightarrow> exn + path list" where
  "sort_mtime_reverse fs files =
     (case sort_keys fs files of
        Inl e \<Rightarrow> Inl e
      | Inr ks \<Rightarrow> Inr (map snd (sort_key (\<lambda>(m, x). - m) ks)))"

text \<open>The inner loop, lines 103 to 112.\<close>

fun duplicates_loop ::
  "path \<Rightarrow> bool \<Rightarrow> path \<Rightarrow> path list \<Rightarrow> fs \<times> duplicate list \<times> nat \<Rightarrow>
   fs \<times> (exn + duplicate list \<times> nat)"
where
  "duplicates_loop path delete_duplicates keep_file [] (fs, duplicates, space_saved) =
     (fs, Inr (duplicates, space_saved))"
| "duplicates_loop path delete_duplicates keep_file (dup # rest) (fs, duplicates, space_saved) =
     (case stat fs dup of
        Inl e \<Rightarrow> (fs, Inl e)
      | Inr n \<Rightarrow>
          (let sz = st_size n;
               duplicates' = duplicates @
                 [\<lparr>dup_file = relative_to dup path, dup_size = sz,
                   dup_original = relative_to keep_file path\<rparr>];
               space_saved' = space_saved + sz;
               fs' = (if delete_duplicates
                      then (case unlink fs dup of Inr fs1 \<Rightarrow> fs1 | Inl e \<Rightarrow> fs)
                      else fs)
           in duplicates_loop path delete_duplicates keep_file rest (fs', duplicates', space_saved')))"

text \<open>The outer loop, lines 97 to 112, over the items of \<open>file_hashes\<close>.\<close>

fun find_duplicates_loop ::
  "path \<Rightarrow> bool \<Rightarrow> (string \<times> path list) list \<Rightarrow> fs \<times> duplicate list \<times> nat \<Rightarrow>
   fs \<times> (exn + duplicate list \<times> nat)"
where
  "find_duplicates_loop path delete_duplicates [] (fs, duplicates, space_saved) =
     (fs, Inr (duplicates, space_saved))"
| "find_duplicates_loop path delete_duplicates ((file_hash, files) # groups)
       (fs, duplicates, space_saved) =
     (if length files > 1 then
        (case sort_mtime_reverse fs files of
           Inl e \<Rightarrow> (fs, Inl e)
         | Inr files' \<Rightarrow>
             (let keep_file = hd files'; duplicate_files = tl files' in
              case duplicates_loop path delete_duplicates keep_file duplicate_files
                     (fs, duplicates, space_saved) of
                (fs', Inl e) \<Rightarrow> (fs', Inl e)
              | (fs', Inr (duplicates', space_saved')) \<Rightarrow>
                  find_duplicates_loop path delete_duplicates groups
                    (fs', duplicates', space_saved')))
      else find_duplicates_loop path delete_duplicates groups (fs, duplicates, space_saved))"

definition find_duplicates_sync ::
  "(string \<Rightarrow> string) \<Rightarrow> path \<Rightarrow> fs \<Rightarrow> path option \<Rightarrow> bool \<Rightarrow> dup_report call" where
  "find_duplicates_sync md5 home fs downloads_path delete_duplicates =
     (let path = get_downloads_path home downloads_path in
      if \<not> path_exists fs path
      then (fs, Inr (Failure (''Path '' @ str_path path @ '' does not exist'')))
      else (let file_hashes = hash_files md5 fs (rglob fs path) [] in
            case find_duplicates_loop path delete_duplicates file_hashes (fs, [], 0) of
              (fs', Inl e) \<Rightarrow> (fs', Inl e)
            | (fs', Inr (duplicates, space_saved)) \<Rightarrow>
                (fs', Inr (Success \<lparr>dr_duplicates = duplicates, dr_count = length duplicates,
                                     dr_space_saved_mb = size_mb space_saved,
                                     dr_deleted = delete_duplicates\<rparr>))))"

section \<open>archive-old-files\<close>








section \<open>Functions used in the statements\<close>

text \<open>None of these is code of the organizer. They name what the theorems speak about:
  the entry a file gets in a report, the files a loop selects, where a file belongs.\<close>


text \<open>The digest of \<open>item\<close>, when it is a regular file that can be read.\<close>

definition hashable :: "(string \<Rightarrow> string) \<Rightarrow> fs \<Rightarrow> path \<Rightarrow> string option" where
  "hashable md5 fs item =
     (case lookup fs item of Some (File c m r) \<Rightarrow> if r then Some (md5 c) else None | _ \<Rightarrow> None)"

definition mtime_at :: "fs \<Rightarrow> path \<Rightarrow> int" where
  "mtime_at fs p = (case lookup fs p of Some n \<Rightarrow> mtime_of n | None \<Rightarrow> 0)"

definition size_at :: "fs \<Rightarrow> path \<Rightarrow> nat" where
  "size_at fs p = (case lookup fs p of Some n \<Rightarrow> st_size n | None \<Rightarrow> 0)"

text \<open>A group of paths sorted as line 99 sorts it, read off one disk; the entries that
  lines 100 to 106 add for a group, and for all groups of the listing.\<close>

definition sorted_group :: "fs \<Rightarrow> path list \<Rightarrow> path list" where
  "sorted_group fs files = map snd (sort_key (\<lambda>(m, x). - m) (map (\<lambda>x. (mtime_at fs x, x)) files))"

definition dup_entry :: "path \<Rightarrow> fs \<Rightarrow> path \<Rightarrow> path \<Rightarrow> duplicate" where
  "dup_entry path fs keep_file dup =
     \<lparr>dup_file = relative_to dup path, dup_size = size_at fs dup,
      dup_original = relative_to keep_file path\<rparr>"

definition group_entries :: "path \<Rightarrow> fs \<Rightarrow> path list \<Rightarrow> duplicate list" where
  "group_entries path fs files =
     (if length files > 1
      then map (dup_entry path fs (hd (sorted_group fs files))) (tl (sorted_group fs files))
      else [])"

definition duplicates_of :: "(string \<Rightarrow> string) \<Rightarrow> fs \<Rightarrow> path \<Rightarrow> duplicate list" where
  "duplicates_of md5 fs path =
     concat (map (\<lambda>(h, files). group_entries path fs files) (hash_files md5 fs (rglob fs path) []))"







text \<open>A path that lies in the folder of its own category below \<open>path\<close>: the test of
  line 60.\<close>

definition placed :: "path \<Rightarrow> path \<Rightarrow> bool" where
  "placed path q = (parent q = path @ [get_category q])"


section \<open>Example disks\<close>







text \<open>A category folder in which \<open>a.png\<close> and \<open>a_1.png\<close> are taken.\<close>

definition crowded_fs :: fs where
  "crowded_fs = [([], Dir True), ([''dl''], Dir True), ([''dl'', ''Images''], Dir True),
     ([''dl'', ''Images'', ''a.png''], File ''first'' 1 True),
     ([''dl'', ''Images'', ''a_1.png''], File ''second'' 2 True),
     ([''dl'', ''a.png''], File ''third'' 3 True)]"

text \<open>A root before and after organize-by-type.\<close>

definition messy_fs :: fs where
  "messy_fs = [([], Dir True), ([''dl''], Dir True),
     ([''dl'', ''a.PNG''], File ''xx'' 100 True),
     ([''dl'', ''sub''], Dir True),
     ([''dl'', ''sub'', ''a.PNG''], File ''yyy'' 50 True),
     ([''dl'', ''notes.txt''], File ''xx'' 200 True),
     ([''dl'', ''.bashrc''], File ''q'' 10 True)]"

definition tidy_fs :: fs where
  "tidy_fs = [([], Dir True), ([''dl''], Dir True), ([''dl'', ''sub''], Dir True),
     ([''dl'', ''Images''], Dir True),
     ([''dl'', ''Images'', ''a.PNG''], File ''xx'' 100 True),
     ([''dl'', ''Images'', ''a_1.PNG''], File ''yyy'' 50 True),
     ([''dl'', ''Documents''], Dir True),
     ([''dl'', ''Documents'', ''notes.txt''], File ''xx'' 200 True),
     ([''dl'', ''Other''], Dir True),
     ([''dl'', ''Other'', ''.bashrc''], File ''q'' 10 True)]"

text \<open>The files A, B and C of the specification: A and B have the same bytes, B is newer.\<close>

definition abc_fs :: fs where
  "abc_fs = [([], Dir True), ([''dl''], Dir True),
     ([''dl'', ''A.txt''], File ''same'' 10 True),
     ([''dl'', ''B.txt''], File ''same'' 20 True),
     ([''dl'', ''C.txt''], File ''other'' 30 True)]"


section \<open>The loops in closed form\<close>

text \<open>Each loop that deletes while it walks is shown equal to a function of the disk as
  it was when the loop started: the entries of the listing are distinct, and deleting
  one file changes no other entry.\<close>

lemma lookup_update: "lookup (AList.update p n fs) q = (if q = p then Some n else lookup fs q)"
  by (simp add: lookup_def update_conv')

lemma lookup_delete: "lookup (AList.delete p fs) q = (if q = p then None else lookup fs q)"
  by (simp add: lookup_def delete_conv')

lemma unlink_lookup:
  assumes "unlink fs p = Inr fs'"
  shows "lookup fs' q = (if q = p then None else lookup fs q)"
  using assms by (auto simp: unlink_def lookup_delete split: option.splits node.splits)

lemma unlink_try_lookup_other:
  "q \<noteq> p \<Longrightarrow> lookup (case unlink fs p of Inr fs1 \<Rightarrow> fs1 | Inl e \<Rightarrow> fs) q = lookup fs q"
  by (auto simp: unlink_lookup split: sum.splits)

lemma map_filter_cong_set:
  "(\<And>x. x \<in> set xs \<Longrightarrow> f x = g x) \<Longrightarrow> List.map_filter f xs = List.map_filter g xs"
proof (induction xs)
  case Nil
  then show ?case by simp
next
  case (Cons a xs)
  then have "List.map_filter f xs = List.map_filter g xs" and "f a = g a" by simp_all
  then show ?case by (simp split: option.split)
qed






lemma distinct_rglob: "distinct (rglob fs path)"
  by (simp add: rglob_def)



subsection \<open>The dictionary of hashes\<close>

lemma Union_dict_append:
  "(\<Union>a\<in>set (dict_append d k v). set (snd a)) = insert v (\<Union>a\<in>set d. set (snd a))"
  by (induction d k v rule: dict_append.induct) auto

lemma set_concat_dict_append:
  "set (concat (map snd (dict_append d k v))) = insert v (set (concat (map snd d)))"
  using Union_dict_append [of d k v] by simp

lemma distinct_concat_dict_append:
  "distinct (concat (map snd (dict_append d k v))) \<longleftrightarrow>
     distinct (concat (map snd d)) \<and> v \<notin> set (concat (map snd d))"
  by (induction d k v rule: dict_append.induct) (auto simp: Union_dict_append)

lemma hash_files_step:
  "hash_files md5 fs (item # items) d =
     hash_files md5 fs items
       (case hashable md5 fs item of Some h \<Rightarrow> dict_append d h item | None \<Rightarrow> d)"
  by (auto simp: hashable_def is_file_def get_file_hash_def split: option.splits node.splits)

lemma hash_files_members:
  "set (concat (map snd (hash_files md5 fs items d))) =
     set (concat (map snd d)) \<union> {p \<in> set items. hashable md5 fs p \<noteq> None}"
proof (induction items arbitrary: d)
  case Nil
  then show ?case by simp
next
  case (Cons item items)
  show ?case
    unfolding hash_files_step Cons.IH
    by (auto simp: Union_dict_append split: option.splits)
qed

lemma hash_files_distinct:
  assumes "distinct items" and "distinct (concat (map snd d))"
    and "set (concat (map snd d)) \<inter> set items = {}"
  shows "distinct (concat (map snd (hash_files md5 fs items d)))"
  using assms
proof (induction items arbitrary: d)
  case Nil
  then show ?case by simp
next
  case (Cons item items)
  show ?case
  proof (cases "hashable md5 fs item")
    case None
    with Cons show ?thesis unfolding hash_files_step by auto
  next
    case (Some h)
    have "distinct (concat (map snd (hash_files md5 fs items (dict_append d h item))))"
    proof (rule Cons.IH)
      show "distinct items" using Cons.prems(1) by simp
      show "distinct (concat (map snd (dict_append d h item)))"
        using Cons.prems by (auto simp: distinct_concat_dict_append)
      show "set (concat (map snd (dict_append d h item))) \<inter> set items = {}"
        using Cons.prems by (auto simp: Union_dict_append)
    qed
    with Some show ?thesis unfolding hash_files_step by simp
  qed
qed

subsection \<open>Sorting a group\<close>

lemma sort_keys_char:
  assumes "\<And>p. p \<in> set files \<Longrightarrow> lookup fs p = lookup fs0 p \<and> lookup fs0 p \<noteq> None"
  shows "sort_keys fs files = Inr (map (\<lambda>x. (mtime_at fs0 x, x)) files)"
  using assms
proof (induction files)
  case Nil
  then show ?case by simp
next
  case (Cons x xs)
  then have "sort_keys fs xs = Inr (map (\<lambda>x. (mtime_at fs0 x, x)) xs)" by simp
  moreover from Cons.prems obtain n where "lookup fs x = Some n" "lookup fs0 x = Some n"
    by force
  ultimately show ?case by (simp add: stat_def mtime_at_def)
qed

lemma sort_mtime_reverse_char:
  assumes "\<And>p. p \<in> set files \<Longrightarrow> lookup fs p = lookup fs0 p \<and> lookup fs0 p \<noteq> None"
  shows "sort_mtime_reverse fs files = Inr (sorted_group fs0 files)"
  using sort_keys_char [OF assms] by (simp add: sort_mtime_reverse_def sorted_group_def)

lemma set_sorted_group: "set (sorted_group fs files) = set files"
  by (force simp: sorted_group_def)

lemma length_sorted_group: "length (sorted_group fs files) = length files"
  by (simp add: sorted_group_def)

lemma distinct_sorted_group: "distinct files \<Longrightarrow> distinct (sorted_group fs files)"
proof -
  assume d: "distinct files"
  let ?ks = "map (\<lambda>x. (mtime_at fs x, x)) files"
  from d have "distinct ?ks" by (simp add: distinct_map inj_on_def)
  moreover have "inj_on snd (set ?ks)" by (auto simp: inj_on_def)
  ultimately show ?thesis unfolding sorted_group_def by (simp add: distinct_map)
qed

subsection \<open>The loops of find-duplicates\<close>

lemma duplicates_loop_char:
  assumes "distinct dups"
    and "\<And>p. p \<in> set dups \<Longrightarrow> lookup fs p = lookup fs0 p \<and> lookup fs0 p \<noteq> None"
  shows "\<exists>fs'. duplicates_loop path delete_duplicates keep_file dups (fs, duplicates, space_saved) =
           (fs', Inr (duplicates @ map (dup_entry path fs0 keep_file) dups,
                      space_saved + sum_list (map (size_at fs0) dups)))
         \<and> (\<forall>q. q \<notin> set dups \<longrightarrow> lookup fs' q = lookup fs q)
         \<and> (\<not> delete_duplicates \<longrightarrow> fs' = fs)"
  using assms
proof (induction dups arbitrary: fs duplicates space_saved)
  case Nil
  then show ?case by simp
next
  case (Cons dup rest)
  from Cons.prems(2) obtain n where n: "lookup fs dup = Some n" "lookup fs0 dup = Some n"
    by force
  define fs1 where "fs1 = (if delete_duplicates
                      then (case unlink fs dup of Inr fs1 \<Rightarrow> fs1 | Inl e \<Rightarrow> fs) else fs)"
  have step: "duplicates_loop path delete_duplicates keep_file (dup # rest) (fs, duplicates, space_saved)
     = duplicates_loop path delete_duplicates keep_file rest
         (fs1, duplicates @ [dup_entry path fs0 keep_file dup], space_saved + size_at fs0 dup)"
    using n by (simp add: stat_def Let_def fs1_def dup_entry_def size_at_def)
  have notin: "dup \<notin> set rest" and dist: "distinct rest" using Cons.prems(1) by auto
  have other: "\<And>q. q \<noteq> dup \<Longrightarrow> lookup fs1 q = lookup fs q"
    by (simp add: fs1_def unlink_try_lookup_other)
  have agree: "lookup fs1 p = lookup fs0 p \<and> lookup fs0 p \<noteq> None" if "p \<in> set rest" for p
  proof -
    from that notin have "p \<noteq> dup" by auto
    then have "lookup fs1 p = lookup fs p" by (rule other)
    with Cons.prems(2) [of p] that show ?thesis by simp
  qed
  from Cons.IH [OF dist agree, of "duplicates @ [dup_entry path fs0 keep_file dup]"
      "space_saved + size_at fs0 dup"]
  obtain fs' where r: "duplicates_loop path delete_duplicates keep_file rest
         (fs1, duplicates @ [dup_entry path fs0 keep_file dup], space_saved + size_at fs0 dup)
       = (fs', Inr ((duplicates @ [dup_entry path fs0 keep_file dup]) @ map (dup_entry path fs0 keep_file) rest,
                      (space_saved + size_at fs0 dup) + sum_list (map (size_at fs0) rest)))"
    and o: "\<forall>q. q \<notin> set rest \<longrightarrow> lookup fs' q = lookup fs1 q"
    and k: "\<not> delete_duplicates \<longrightarrow> fs' = fs1"
    by auto
  show ?case
  proof (intro exI conjI)
    show "duplicates_loop path delete_duplicates keep_file (dup # rest) (fs, duplicates, space_saved) =
      (fs', Inr (duplicates @ map (dup_entry path fs0 keep_file) (dup # rest),
                 space_saved + sum_list (map (size_at fs0) (dup # rest))))"
      using step r by simp
    show "\<forall>q. q \<notin> set (dup # rest) \<longrightarrow> lookup fs' q = lookup fs q"
      using o other by simp
    show "\<not> delete_duplicates \<longrightarrow> fs' = fs"
      using k by (simp add: fs1_def)
  qed
qed

lemma dup_size_dup_entry: "map dup_size (map (dup_entry path fs k) ds) = map (size_at fs) ds"
  by (simp add: dup_entry_def)

lemma sum_group_entries:
  "sum_list (map dup_size (group_entries path fs files)) =
     (if length files > 1 then sum_list (map (size_at fs) (tl (sorted_group fs files))) else 0)"
  by (simp add: group_entries_def dup_size_dup_entry del: map_map)

lemma find_duplicates_loop_char:
  assumes "distinct (concat (map snd groups))"
    and "\<And>p. p \<in> set (concat (map snd groups)) \<Longrightarrow> lookup fs p = lookup fs0 p \<and> lookup fs0 p \<noteq> None"
  shows "\<exists>fs'. find_duplicates_loop path delete_duplicates groups (fs, duplicates, space_saved) =
           (fs', Inr (duplicates @ concat (map (\<lambda>(h, files). group_entries path fs0 files) groups),
                      space_saved + sum_list (map dup_size
                         (concat (map (\<lambda>(h, files). group_entries path fs0 files) groups)))))
         \<and> (\<forall>q. q \<notin> set (concat (map snd groups)) \<longrightarrow> lookup fs' q = lookup fs q)
         \<and> (\<not> delete_duplicates \<longrightarrow> fs' = fs)"
  using assms
proof (induction groups arbitrary: fs duplicates space_saved)
  case Nil
  then show ?case by simp
next
  case (Cons g groups)
  obtain h files where g: "g = (h, files)" by (cases g)
  have dist_files: "distinct files" and dist_rest: "distinct (concat (map snd groups))"
    and disj: "set files \<inter> set (concat (map snd groups)) = {}"
    using Cons.prems(1) g by auto
  have agree_files: "\<And>p. p \<in> set files \<Longrightarrow> lookup fs p = lookup fs0 p \<and> lookup fs0 p \<noteq> None"
    using Cons.prems(2) g by auto
  have agree_rest: "\<And>p. p \<in> set (concat (map snd groups)) \<Longrightarrow>
      lookup fs p = lookup fs0 p \<and> lookup fs0 p \<noteq> None"
    using Cons.prems(2) by auto
  show ?case
  proof (cases "length files > 1")
    case False
    from Cons.IH [OF dist_rest agree_rest, of duplicates space_saved]
    obtain fs' where "find_duplicates_loop path delete_duplicates groups (fs, duplicates, space_saved) =
           (fs', Inr (duplicates @ concat (map (\<lambda>(h, files). group_entries path fs0 files) groups),
                      space_saved + sum_list (map dup_size
                         (concat (map (\<lambda>(h, files). group_entries path fs0 files) groups)))))"
      and "\<forall>q. q \<notin> set (concat (map snd groups)) \<longrightarrow> lookup fs' q = lookup fs q"
      and "\<not> delete_duplicates \<longrightarrow> fs' = fs"
      by blast
    with False g show ?thesis by (auto simp: group_entries_def)
  next
    case True
    let ?s = "sorted_group fs0 files"
    have sorted: "sort_mtime_reverse fs files = Inr ?s"
      using agree_files by (rule sort_mtime_reverse_char)
    have ne: "?s \<noteq> []" using True length_sorted_group [of fs0 files] by auto
    then have hdtl: "?s = hd ?s # tl ?s" by simp
    have "distinct ?s" using dist_files by (rule distinct_sorted_group)
    then have dist_tl: "distinct (tl ?s)" by (simp add: distinct_tl)
    have tl_sub: "set (tl ?s) \<subseteq> set files"
      using set_sorted_group [of fs0 files] hdtl by (metis list.set_sel(2) ne subsetI)
    have agree_tl: "\<And>p. p \<in> set (tl ?s) \<Longrightarrow> lookup fs p = lookup fs0 p \<and> lookup fs0 p \<noteq> None"
      using tl_sub agree_files by blast
    let ?d1 = "duplicates @ map (dup_entry path fs0 (hd ?s)) (tl ?s)"
    let ?s1 = "space_saved + sum_list (map (size_at fs0) (tl ?s))"
    from duplicates_loop_char [OF dist_tl agree_tl, of path delete_duplicates "hd ?s" duplicates space_saved]
    obtain fs1 where inner: "duplicates_loop path delete_duplicates (hd ?s) (tl ?s)
          (fs, duplicates, space_saved) = (fs1, Inr (?d1, ?s1))"
      and o1: "\<forall>q. q \<notin> set (tl ?s) \<longrightarrow> lookup fs1 q = lookup fs q"
      and k1: "\<not> delete_duplicates \<longrightarrow> fs1 = fs"
      by blast
    have agree1: "lookup fs1 p = lookup fs0 p \<and> lookup fs0 p \<noteq> None"
      if "p \<in> set (concat (map snd groups))" for p
    proof -
      from that disj tl_sub have "p \<notin> set (tl ?s)" by blast
      with o1 have "lookup fs1 p = lookup fs p" by simp
      with agree_rest [OF that] show ?thesis by simp
    qed
    from Cons.IH [OF dist_rest agree1, of ?d1 ?s1]
    obtain fs' where outer: "find_duplicates_loop path delete_duplicates groups (fs1, ?d1, ?s1) =
           (fs', Inr (?d1 @ concat (map (\<lambda>(h, files). group_entries path fs0 files) groups),
                      ?s1 + sum_list (map dup_size
                         (concat (map (\<lambda>(h, files). group_entries path fs0 files) groups)))))"
      and o2: "\<forall>q. q \<notin> set (concat (map snd groups)) \<longrightarrow> lookup fs' q = lookup fs1 q"
      and k2: "\<not> delete_duplicates \<longrightarrow> fs' = fs1"
      by blast
    have step: "find_duplicates_loop path delete_duplicates (g # groups) (fs, duplicates, space_saved)
        = find_duplicates_loop path delete_duplicates groups (fs1, ?d1, ?s1)"
      using True sorted inner g by (simp add: Let_def)
    have ge: "group_entries path fs0 files = map (dup_entry path fs0 (hd ?s)) (tl ?s)"
      using True by (simp add: group_entries_def)
    show ?thesis
    proof (intro exI conjI)
      show "find_duplicates_loop path delete_duplicates (g # groups) (fs, duplicates, space_saved) =
           (fs', Inr (duplicates @ concat (map (\<lambda>(h, files). group_entries path fs0 files) (g # groups)),
                      space_saved + sum_list (map dup_size
                         (concat (map (\<lambda>(h, files). group_entries path fs0 files) (g # groups))))))"
        unfolding step outer using g ge by (simp add: dup_size_dup_entry del: map_map)
      show "\<forall>q. q \<notin> set (concat (map snd (g # groups))) \<longrightarrow> lookup fs' q = lookup fs q"
        using o1 o2 tl_sub g by auto
      show "\<not> delete_duplicates \<longrightarrow> fs' = fs" using k1 k2 by simp
    qed
  qed
qed

lemma hashable_exists: "hashable md5 fs p \<noteq> None \<Longrightarrow> lookup fs p \<noteq> None"
  by (auto simp: hashable_def split: option.splits)

lemma find_duplicates_sync_char:
  assumes "path_exists fs (get_downloads_path home downloads_path)"
  shows "\<exists>fs'. find_duplicates_sync md5 home fs downloads_path delete_duplicates =
           (fs', Inr (Success
              \<lparr>dr_duplicates = duplicates_of md5 fs (get_downloads_path home downloads_path),
               dr_count = length (duplicates_of md5 fs (get_downloads_path home downloads_path)),
               dr_space_saved_mb = size_mb (sum_list (map dup_size
                  (duplicates_of md5 fs (get_downloads_path home downloads_path)))),
               dr_deleted = delete_duplicates\<rparr>))
         \<and> (\<not> delete_duplicates \<longrightarrow> fs' = fs)"
proof -
  let ?path = "get_downloads_path home downloads_path"
  let ?G = "hash_files md5 fs (rglob fs ?path) []"
  have d: "distinct (concat (map snd ?G))"
    by (rule hash_files_distinct) (simp_all add: distinct_rglob)
  have a: "lookup fs p = lookup fs p \<and> lookup fs p \<noteq> None"
    if "p \<in> set (concat (map snd ?G))" for p
  proof -
    from that have "p \<in> {p \<in> set (rglob fs ?path). hashable md5 fs p \<noteq> None}"
      unfolding hash_files_members by simp
    then have "hashable md5 fs p \<noteq> None" by simp
    then show ?thesis by (simp add: hashable_exists)
  qed
  from find_duplicates_loop_char [OF d a, of path delete_duplicates "[]" 0 for path]
  obtain fs' where "find_duplicates_loop ?path delete_duplicates ?G (fs, [], 0) =
      (fs', Inr ([] @ duplicates_of md5 fs ?path,
         0 + sum_list (map dup_size (duplicates_of md5 fs ?path))))"
     and "\<not> delete_duplicates \<longrightarrow> fs' = fs"
    unfolding duplicates_of_def by blast
  with assms show ?thesis
    by (simp add: find_duplicates_sync_def Let_def)
qed


subsection \<open>The archive loop\<close>







lemma rglob_iff:
  "q \<in> set (rglob fs path) \<longleftrightarrow> is_dir fs path \<and> path_exists fs q \<and> strict_prefix path q"
proof -
  have "q \<in> fst ` set fs \<longleftrightarrow> path_exists fs q"
    by (simp add: path_exists_def lookup_def dom_map_of_conv_image_fst [symmetric] domIff)
  then show ?thesis by (auto simp: rglob_def)
qed

lemma relative_to_inject:
  assumes "strict_prefix path p" and "strict_prefix path q"
    and "relative_to p path = relative_to q path"
  shows "p = q"
proof -
  from assms(1) obtain a where "p = path @ a" by (auto simp: strict_prefix_def prefix_def)
  moreover from assms(2) obtain b where "q = path @ b" by (auto simp: strict_prefix_def prefix_def)
  ultimately show ?thesis using assms(3) by (simp add: relative_to_def)
qed




subsection \<open>What the reports list\<close>



lemma rglob_strict_prefix: "q \<in> set (rglob fs path) \<Longrightarrow> strict_prefix path q"
  by (simp add: rglob_iff)








subsection \<open>The free name and the move\<close>

lemma free_target_free:
  "\<not> path_exists fs (free_target fs target_dir stm sfx target_path counter)"
proof (induction fs target_dir stm sfx target_path counter rule: free_target.induct)
  case (1 fs target_dir stm sfx target_path counter)
  then show ?case by (subst free_target.simps) simp
qed

lemma free_target_parent:
  "parent target_path = target_dir \<Longrightarrow>
   parent (free_target fs target_dir stm sfx target_path counter) = target_dir"
proof (induction fs target_dir stm sfx target_path counter rule: free_target.induct)
  case (1 fs target_dir stm sfx target_path counter)
  show ?case
  proof (cases "path_exists fs target_path")
    case True
    have "parent (target_dir @ [stm @ ''_'' @ str_nat counter @ sfx]) = target_dir"
      by (simp add: parent_def)
    with 1(1) [OF True] True show ?thesis by (subst free_target.simps) simp
  next
    case False
    with 1(2) show ?thesis by (subst free_target.simps) simp
  qed
qed

lemma free_target_unchanged:
  "\<not> path_exists fs target_path \<Longrightarrow>
   free_target fs target_dir stm sfx target_path counter = target_path"
  by (subst free_target.simps) simp

lemma free_target_least:
  assumes "path_exists fs target_path"
  shows "\<exists>k\<ge>counter.
     free_target fs target_dir stm sfx target_path counter
        = target_dir @ [stm @ ''_'' @ str_nat k @ sfx]
     \<and> (\<forall>j. counter \<le> j \<and> j < k \<longrightarrow> path_exists fs (target_dir @ [stm @ ''_'' @ str_nat j @ sfx]))"
  using assms
proof (induction fs target_dir stm sfx target_path counter rule: free_target.induct)
  case (1 fs target_dir stm sfx target_path counter)
  let ?cand = "\<lambda>j. target_dir @ [stm @ ''_'' @ str_nat j @ sfx]"
  have unfold: "free_target fs target_dir stm sfx target_path counter
      = free_target fs target_dir stm sfx (?cand counter) (counter + 1)"
    using 1(2) by (subst free_target.simps) simp
  show ?case
  proof (cases "path_exists fs (?cand counter)")
    case False
    then have "free_target fs target_dir stm sfx (?cand counter) (counter + 1) = ?cand counter"
      by (rule free_target_unchanged)
    with unfold have "free_target fs target_dir stm sfx target_path counter = ?cand counter"
      by simp
    then show ?thesis by (intro exI [of _ counter]) auto
  next
    case True
    from 1(1) [OF 1(2) True] obtain k where k: "counter + 1 \<le> k"
      and r: "free_target fs target_dir stm sfx (?cand counter) (counter + 1) = ?cand k"
      and a: "\<forall>j. counter + 1 \<le> j \<and> j < k \<longrightarrow> path_exists fs (?cand j)"
      by blast
    have "\<forall>j. counter \<le> j \<and> j < k \<longrightarrow> path_exists fs (?cand j)"
    proof (intro allI impI)
      fix j assume j: "counter \<le> j \<and> j < k"
      show "path_exists fs (?cand j)"
      proof (cases "j = counter")
        case True
        with \<open>path_exists fs (?cand counter)\<close> show ?thesis by simp
      next
        case False
        with j have "counter + 1 \<le> j \<and> j < k" by simp
        with a show ?thesis by blast
      qed
    qed
    with unfold r k show ?thesis by (intro exI [of _ k]) simp
  qed
qed

lemma shutil_move_lookup:
  assumes src: "lookup fs src = Some (File c m r)" and free: "\<not> path_exists fs dst"
    and mv: "shutil_move fs src dst = (fs', res)"
  shows "(\<forall>q. q \<noteq> src \<and> q \<noteq> dst \<longrightarrow> lookup fs' q = lookup fs q)
     \<and> (res = None \<longrightarrow> lookup fs' dst = Some (File c m r) \<and> lookup fs' src = None)
     \<and> (res \<noteq> None \<longrightarrow> lookup fs' src = Some (File c m r)
            \<and> (lookup fs' dst = None \<or> lookup fs' dst = Some (File c m r)))"
proof -
  have ne: "src \<noteq> dst" using src free by (auto simp: path_exists_def)
  have dn: "lookup fs dst = None" using free by (simp add: path_exists_def)
  show ?thesis
  proof (cases "os_rename fs src dst")
    case (Inr fs1)
    then have "fs1 = AList.update dst (File c m r) (AList.delete src fs)"
      using src by (auto simp: os_rename_def split: option.splits)
    moreover from Inr mv have "fs' = fs1" "res = None" by (simp_all add: shutil_move_def)
    ultimately show ?thesis using ne by (simp add: lookup_update lookup_delete)
  next
    case (Inl e0)
    show ?thesis
    proof (cases "copy2 fs src dst")
      case (Inl e)
      with \<open>os_rename fs src dst = Inl e0\<close> mv have "fs' = fs" "res = Some e"
        by (simp_all add: shutil_move_def)
      then show ?thesis using src dn by simp
    next
      case (Inr fs1)
      then have fs1: "fs1 = AList.update dst (File c m r) fs"
        using src by (auto simp: copy2_def split: option.splits if_splits)
      then have s1: "lookup fs1 src = Some (File c m r)" using ne src by (simp add: lookup_update)
      show ?thesis
      proof (cases "unlink fs1 src")
        case (Inl e)
        with \<open>os_rename fs src dst = Inl e0\<close> \<open>copy2 fs src dst = Inr fs1\<close> mv
        have "fs' = fs1" "res = Some e" by (simp_all add: shutil_move_def)
        then show ?thesis using fs1 ne src by (simp add: lookup_update)
      next
        case (Inr fs2)
        then have "\<And>q. lookup fs2 q = (if q = src then None else lookup fs1 q)"
          by (rule unlink_lookup)
        moreover from Inr \<open>os_rename fs src dst = Inl e0\<close> \<open>copy2 fs src dst = Inr fs1\<close> mv
        have "fs' = fs2" "res = None" by (simp_all add: shutil_move_def)
        ultimately show ?thesis using fs1 ne by (simp add: lookup_update)
      qed
    qed
  qed
qed

subsection \<open>Suffix of a renamed file\<close>

lemma rfind_dot_split:
  assumes "CHR ''.'' \<notin> set e"
  shows "rfind_dot (pre @ CHR ''.'' # e) = Some (length pre)"
proof -
  have "takeWhile (\<lambda>c. c \<noteq> CHR ''.'') (rev e @ CHR ''.'' # rev pre) = rev e"
    using assms by (subst takeWhile_append2) auto
  then show ?thesis by (simp add: rfind_dot_def)
qed

lemma path_suffix_split:
  assumes "CHR ''.'' \<notin> set e"
  shows "path_suffix (pre @ CHR ''.'' # e) = (if pre \<noteq> [] \<and> e \<noteq> [] then CHR ''.'' # e else [])"
  using rfind_dot_split [OF assms, of pre] by (auto simp: path_suffix_def)

lemma stem_split:
  assumes "CHR ''.'' \<notin> set e"
  shows "stem (pre @ CHR ''.'' # e) = (if pre \<noteq> [] \<and> e \<noteq> [] then pre else pre @ CHR ''.'' # e)"
  using rfind_dot_split [OF assms, of pre] by (auto simp: stem_def)

lemma no_dot_suffix: "CHR ''.'' \<notin> set s \<Longrightarrow> path_suffix s = [] \<and> stem s = s"
  by (simp add: path_suffix_def stem_def rfind_dot_def)

lemma digit_char_no_dot: "d < 10 \<Longrightarrow> digit_char d \<noteq> CHR ''.''"
proof
  assume "d < 10" and "digit_char d = CHR ''.''"
  then have "of_char (char_of (48 + d)) = (of_char (CHR ''.'') :: nat)"
    by (simp add: digit_char_def)
  with \<open>d < 10\<close> show False by simp
qed

lemma str_nat_no_dot: "CHR ''.'' \<notin> set (str_nat n)"
proof (induction n rule: str_nat.induct)
  case (1 n)
  show ?case
  proof (cases "n < 10")
    case True
    then show ?thesis using digit_char_no_dot [of n] by (subst str_nat.simps) auto
  next
    case False
    have "n mod 10 < 10" by simp
    then have "digit_char (n mod 10) \<noteq> CHR ''.''" by (rule digit_char_no_dot)
    with 1 False show ?thesis by (subst str_nat.simps) auto
  qed
qed

lemma lower_underscore: "CHR ''_'' \<in> set s \<Longrightarrow> CHR ''_'' \<in> set (lower s)"
proof -
  have "lower_char (CHR ''_'') = CHR ''_''" by (simp add: lower_char_def)
  then show "CHR ''_'' \<in> set s \<Longrightarrow> CHR ''_'' \<in> set (lower s)"
    unfolding lower_def by (metis image_eqI set_map)
qed

lemma category_of_empty: "category_of FILE_CATEGORIES [] = ''Other''"
  by (simp add: FILE_CATEGORIES_def)

lemma no_underscore_cat:
  "list_all (\<lambda>(c, exts). list_all (\<lambda>e. CHR ''_'' \<notin> set e) exts) FILE_CATEGORIES"
  by code_simp

lemma category_of_none:
  "list_all (\<lambda>(c, exts). ext \<notin> set exts) cats \<Longrightarrow> category_of cats ext = ''Other''"
  by (induction cats) auto

lemma category_of_underscore:
  assumes "CHR ''_'' \<in> set ext"
  shows "category_of FILE_CATEGORIES ext = ''Other''"
proof (rule category_of_none)
  have "ext \<notin> set exts"
    if "list_all (\<lambda>e. CHR ''_'' \<notin> set e) exts" for exts
    using that assms by (auto simp: list_all_iff)
  then show "list_all (\<lambda>(c, exts). ext \<notin> set exts) FILE_CATEGORIES"
    using no_underscore_cat by (auto simp: list_all_iff)
qed

lemma category_of_renamed:
  "category_of FILE_CATEGORIES (lower (path_suffix (stem n @ ''_'' @ str_nat k @ path_suffix n)))
     = category_of FILE_CATEGORIES (lower (path_suffix n))"
proof (cases "CHR ''.'' \<in> set n")
  case False
  then have n: "path_suffix n = []" "stem n = n" by (simp_all add: no_dot_suffix)
  have "CHR ''.'' \<notin> set (n @ ''_'' @ str_nat k)" using False str_nat_no_dot by simp
  then have "path_suffix (n @ ''_'' @ str_nat k) = []" by (simp add: no_dot_suffix)
  with n show ?thesis by simp
next
  case True
  then obtain pre e where split: "n = pre @ CHR ''.'' # e" and e: "CHR ''.'' \<notin> set e"
    by (auto dest: split_list_last)
  show ?thesis
  proof (cases "pre \<noteq> [] \<and> e \<noteq> []")
    case True
    then have "path_suffix n = CHR ''.'' # e" "stem n = pre"
      using e by (simp_all add: split path_suffix_split stem_split)
    moreover have "path_suffix ((pre @ ''_'' @ str_nat k) @ CHR ''.'' # e) = CHR ''.'' # e"
      using e True by (subst path_suffix_split) simp_all
    ultimately show ?thesis by simp
  next
    case False
    then have n: "path_suffix n = []" "stem n = n"
      using e by (auto simp: split path_suffix_split stem_split)
    have e': "CHR ''.'' \<notin> set (e @ ''_'' @ str_nat k)" using e str_nat_no_dot by simp
    have "path_suffix (pre @ CHR ''.'' # (e @ ''_'' @ str_nat k))
        = (if pre \<noteq> [] \<and> e @ ''_'' @ str_nat k \<noteq> [] then CHR ''.'' # (e @ ''_'' @ str_nat k) else [])"
      using e' by (rule path_suffix_split)
    then have "path_suffix (n @ ''_'' @ str_nat k) = []
        \<or> CHR ''_'' \<in> set (path_suffix (n @ ''_'' @ str_nat k))"
      by (auto simp: split)
    then have "category_of FILE_CATEGORIES (lower (path_suffix (n @ ''_'' @ str_nat k))) = ''Other''"
    proof
      assume "path_suffix (n @ ''_'' @ str_nat k) = []"
      then show ?thesis by (simp add: lower_def category_of_empty)
    next
      assume "CHR ''_'' \<in> set (path_suffix (n @ ''_'' @ str_nat k))"
      then show ?thesis by (intro category_of_underscore lower_underscore)
    qed
    with n show ?thesis by (simp add: lower_def category_of_empty)
  qed
qed

subsection \<open>Files in place\<close>

lemma get_category_snoc:
  "get_category (d @ [x]) = category_of FILE_CATEGORIES (lower (path_suffix x))"
  by (simp add: get_category_def name_def)

lemma get_category_name: "get_category (d @ [name item]) = get_category item"
  by (simp add: get_category_snoc) (simp add: get_category_def)

lemma parent_snoc: "parent (d @ [x]) = d"
  by (simp add: parent_def)

lemma free_target_cases:
  "free_target fs target_dir stm sfx target_path counter = target_path
   \<or> (\<exists>k. free_target fs target_dir stm sfx target_path counter
             = target_dir @ [stm @ ''_'' @ str_nat k @ sfx])"
proof (cases "path_exists fs target_path")
  case True
  from free_target_least [OF True, of counter target_dir stm sfx] show ?thesis by blast
next
  case False
  then show ?thesis by (simp add: free_target_unchanged)
qed

lemma move_target_placed:
  "placed path (free_target fs (path @ [get_category item]) (stem (name item))
                  (path_suffix (name item)) ((path @ [get_category item]) @ [name item]) 1)"
proof -
  let ?d = "path @ [get_category item]"
  let ?t = "free_target fs ?d (stem (name item)) (path_suffix (name item)) (?d @ [name item]) 1"
  have par: "parent ?t = ?d" by (rule free_target_parent) (rule parent_snoc)
  from free_target_cases [of fs ?d "stem (name item)" "path_suffix (name item)" "?d @ [name item]" 1]
  have "get_category ?t = get_category item"
  proof
    assume "?t = ?d @ [name item]"
    then show ?thesis by (simp only: get_category_name)
  next
    assume "\<exists>k. ?t = ?d @ [stem (name item) @ ''_'' @ str_nat k @ path_suffix (name item)]"
    then obtain k where "?t = ?d @ [stem (name item) @ ''_'' @ str_nat k @ path_suffix (name item)]"
      by blast
    then have "get_category ?t = category_of FILE_CATEGORIES
        (lower (path_suffix (stem (name item) @ ''_'' @ str_nat k @ path_suffix (name item))))"
      by (simp only: get_category_snoc)
    also have "\<dots> = category_of FILE_CATEGORIES (lower (path_suffix (name item)))"
      by (rule category_of_renamed)
    finally show ?thesis by (simp add: get_category_def)
  qed
  with par show ?thesis by (simp add: placed_def)
qed

lemma mkdir_exist_ok_lookup:
  assumes "mkdir_exist_ok fs d = Inr fs1"
  shows "lookup fs1 q = (if q = d \<and> \<not> path_exists fs d then Some (Dir True) else lookup fs q)"
  using assms
  by (auto simp: mkdir_exist_ok_def os_mkdir_def lookup_update is_dir_def path_exists_def
      split: sum.splits if_splits option.splits node.splits)

lemma mkdir_exist_ok_is_file:
  assumes "mkdir_exist_ok fs d = Inr fs1"
  shows "is_file fs1 q = is_file fs q"
  using mkdir_exist_ok_lookup [OF assms, of q]
  by (auto simp: is_file_def path_exists_def)

lemma mkdir_exist_ok_keeps:
  assumes "mkdir_exist_ok fs d = Inr fs1" and "lookup fs q = Some n"
  shows "lookup fs1 q = Some n"
  using mkdir_exist_ok_lookup [OF assms(1), of q] assms(2)
  by (auto simp: path_exists_def)

lemma is_file_lookup: "is_file fs q \<longleftrightarrow> (\<exists>c m r. lookup fs q = Some (File c m r))"
  by (auto simp: is_file_def split: option.splits node.splits)

lemma organize_by_type_loop_step:
  "organize_by_type_loop path False (item # items) (fs, moved_files, errors) =
     (if is_file fs item \<and> \<not> placed path item then
        (case mkdir_exist_ok fs (path @ [get_category item]) of
           Inl e \<Rightarrow> (fs, Inl e)
         | Inr fs1 \<Rightarrow>
             (case move_unique fs1 item (path @ [get_category item]) of
                (fs2, None) \<Rightarrow>
                  organize_by_type_loop path False items
                    (fs2, dict_append moved_files (get_category item) (name item), errors)
              | (fs2, Some e) \<Rightarrow>
                  organize_by_type_loop path False items
                    (fs2, moved_files, errors @ [name item @ '': '' @ str_exn e])))
      else organize_by_type_loop path False items (fs, moved_files, errors))"
  by (simp add: placed_def Let_def)

lemma organize_by_type_loop_skip:
  assumes "\<And>q. q \<in> set items \<Longrightarrow> is_file fs q \<Longrightarrow> placed path q"
  shows "organize_by_type_loop path dry_run items (fs, moved_files, errors)
           = (fs, Inr (moved_files, errors))"
  using assms
  by (induction items) (auto simp: placed_def Let_def)

declare organize_by_type_loop.simps(2) [simp del]

lemma organize_by_type_loop_errors:
  assumes "organize_by_type_loop path False items (fs, moved_files, errors)
             = (fs', Inr (moved_files', errors'))"
  shows "\<exists>es. errors' = errors @ es"
  using assms
proof (induction items arbitrary: fs moved_files errors)
  case Nil
  then show ?case by simp
next
  case (Cons item items)
  show ?case
  proof (cases "is_file fs item \<and> \<not> placed path item")
    case False
    with Cons.prems have "organize_by_type_loop path False items (fs, moved_files, errors)
             = (fs', Inr (moved_files', errors'))"
      by (simp add: organize_by_type_loop_step)
    then show ?thesis by (rule Cons.IH)
  next
    case True
    show ?thesis
    proof (cases "mkdir_exist_ok fs (path @ [get_category item])")
      case (Inl e)
      with True Cons.prems show ?thesis by (simp add: organize_by_type_loop_step)
    next
      case (Inr fs1)
      obtain fs2 res where mv: "move_unique fs1 item (path @ [get_category item]) = (fs2, res)"
        by (cases "move_unique fs1 item (path @ [get_category item])")
      show ?thesis
      proof (cases res)
        case None
        with True Inr mv Cons.prems have "organize_by_type_loop path False items
            (fs2, dict_append moved_files (get_category item) (name item), errors)
             = (fs', Inr (moved_files', errors'))"
          by (simp add: organize_by_type_loop_step)
        then show ?thesis by (rule Cons.IH)
      next
        case (Some e)
        with True Inr mv Cons.prems have "organize_by_type_loop path False items
            (fs2, moved_files, errors @ [name item @ '': '' @ str_exn e])
             = (fs', Inr (moved_files', errors'))"
          by (simp add: organize_by_type_loop_step)
        then have "\<exists>es. errors' = (errors @ [name item @ '': '' @ str_exn e]) @ es"
          by (rule Cons.IH)
        then show ?thesis by auto
      qed
    qed
  qed
qed

lemma organize_by_type_loop_places:
  assumes "organize_by_type_loop path False items (fs, moved_files, errors)
             = (fs', Inr (moved_files', []))"
    and "\<And>q. is_file fs q \<Longrightarrow> strict_prefix path q \<Longrightarrow> q \<in> set items \<or> placed path q"
  shows "(\<forall>q. is_file fs' q \<and> strict_prefix path q \<longrightarrow> placed path q)
       \<and> (\<forall>d w. lookup fs d = Some (Dir w) \<longrightarrow> lookup fs' d = Some (Dir w))"
  using assms
proof (induction items arbitrary: fs moved_files errors)
  case Nil
  then show ?case by auto
next
  case (Cons item items)
  show ?case
  proof (cases "is_file fs item \<and> \<not> placed path item")
    case False
    with Cons.prems(1) have run: "organize_by_type_loop path False items (fs, moved_files, errors)
             = (fs', Inr (moved_files', []))"
      by (simp add: organize_by_type_loop_step)
    have inv: "q \<in> set items \<or> placed path q" if "is_file fs q" "strict_prefix path q" for q
      using Cons.prems(2) [OF that] False that(1) by auto
    from Cons.IH [OF run inv] show ?thesis by blast
  next
    case True
    from True obtain c m r where src: "lookup fs item = Some (File c m r)"
      by (auto simp: is_file_lookup)
    show ?thesis
    proof (cases "mkdir_exist_ok fs (path @ [get_category item])")
      case (Inl e)
      with True Cons.prems(1) show ?thesis by (simp add: organize_by_type_loop_step)
    next
      case (Inr fs1)
      obtain fs2 res where mv: "move_unique fs1 item (path @ [get_category item]) = (fs2, res)"
        by (cases "move_unique fs1 item (path @ [get_category item])")
      show ?thesis
      proof (cases res)
        case (Some e)
        with True Inr mv Cons.prems(1) have "organize_by_type_loop path False items
            (fs2, moved_files, errors @ [name item @ '': '' @ str_exn e])
             = (fs', Inr (moved_files', []))"
          by (simp add: organize_by_type_loop_step)
        from organize_by_type_loop_errors [OF this] show ?thesis by simp
      next
        case None
        with True Inr mv Cons.prems(1) have run: "organize_by_type_loop path False items
            (fs2, dict_append moved_files (get_category item) (name item), errors)
             = (fs', Inr (moved_files', []))"
          by (simp add: organize_by_type_loop_step)
        let ?d = "path @ [get_category item]"
        let ?t = "free_target fs1 ?d (stem (name item)) (path_suffix (name item)) (?d @ [name item]) 1"
        have src1: "lookup fs1 item = Some (File c m r)"
          using Inr src by (rule mkdir_exist_ok_keeps)
        have sm: "shutil_move fs1 item ?t = (fs2, None)"
          using mv None by (simp add: move_unique_def)
        have free: "\<not> path_exists fs1 ?t" by (rule free_target_free)
        from shutil_move_lookup [OF src1 free sm]
        have other: "\<And>q. q \<noteq> item \<Longrightarrow> q \<noteq> ?t \<Longrightarrow> lookup fs2 q = lookup fs1 q"
          and gone: "lookup fs2 item = None"
          by auto
        have tp: "placed path ?t" by (rule move_target_placed)
        have inv: "q \<in> set items \<or> placed path q" if q: "is_file fs2 q" "strict_prefix path q" for q
        proof (cases "q = ?t")
          case True
          with tp show ?thesis by simp
        next
          case False
          from q(1) gone have "q \<noteq> item" by (auto simp: is_file_def)
          with False other have "lookup fs2 q = lookup fs1 q" by simp
          with q(1) have "is_file fs1 q" by (simp add: is_file_def)
          then have "is_file fs q" using Inr by (simp add: mkdir_exist_ok_is_file)
          from Cons.prems(2) [OF this q(2)] \<open>q \<noteq> item\<close> show ?thesis by auto
        qed
        from Cons.IH [OF run inv]
        have places: "\<forall>q. is_file fs' q \<and> strict_prefix path q \<longrightarrow> placed path q"
          and dirs2: "\<forall>d w. lookup fs2 d = Some (Dir w) \<longrightarrow> lookup fs' d = Some (Dir w)"
          by blast+
        have "lookup fs' d = Some (Dir w)" if d: "lookup fs d = Some (Dir w)" for d w
        proof -
          from Inr d have d1: "lookup fs1 d = Some (Dir w)" by (rule mkdir_exist_ok_keeps)
          with src1 have "d \<noteq> item" by auto
          moreover from d1 free have "d \<noteq> ?t" by (auto simp: path_exists_def)
          ultimately have "lookup fs2 d = Some (Dir w)" using other d1 by simp
          with dirs2 show ?thesis by blast
        qed
        with places show ?thesis by blast
      qed
    qed
  qed
qed

subsection \<open>Groups\<close>

lemma keys_dict_append: "fst ` set (dict_append d k v) = insert k (fst ` set d)"
  by (induction d k v rule: dict_append.induct) auto

lemma distinct_keys_dict_append:
  "distinct (map fst (dict_append d k v)) = distinct (map fst d)"
  by (induction d k v rule: dict_append.induct) (auto simp: keys_dict_append)

lemma map_of_dict_append:
  "map_of (dict_append d k v) =
     (map_of d)(k \<mapsto> (case map_of d k of None \<Rightarrow> [v] | Some vs \<Rightarrow> vs @ [v]))"
  by (induction d k v rule: dict_append.induct) (auto simp: fun_eq_iff)

lemma distinct_keys_hash_files:
  "distinct (map fst d) \<Longrightarrow> distinct (map fst (hash_files md5 fs items d))"
proof (induction items arbitrary: d)
  case Nil
  then show ?case by simp
next
  case (Cons item items)
  show ?case
    unfolding hash_files_step
    by (rule Cons.IH) (use Cons.prems in \<open>auto simp: distinct_keys_dict_append split: option.splits\<close>)
qed

lemma map_of_hash_files:
  "map_of (hash_files md5 fs items d) h =
     (case map_of d h of
        None \<Rightarrow> (if filter (\<lambda>p. hashable md5 fs p = Some h) items = [] then None
                 else Some (filter (\<lambda>p. hashable md5 fs p = Some h) items))
      | Some vs \<Rightarrow> Some (vs @ filter (\<lambda>p. hashable md5 fs p = Some h) items))"
proof (induction items arbitrary: d)
  case Nil
  then show ?case by (simp split: option.splits)
next
  case (Cons item items)
  show ?case
  proof (cases "hashable md5 fs item")
    case None
    then show ?thesis unfolding hash_files_step Cons.IH by (simp split: option.splits)
  next
    case (Some k)
    show ?thesis
      unfolding hash_files_step Cons.IH using Some
      by (auto simp: map_of_dict_append split: option.splits)
  qed
qed

lemma hash_files_group_iff:
  "(h, files) \<in> set (hash_files md5 fs items []) \<longleftrightarrow>
     files = filter (\<lambda>p. hashable md5 fs p = Some h) items \<and> files \<noteq> []"
proof -
  have "distinct (map fst (hash_files md5 fs items []))"
    by (rule distinct_keys_hash_files) simp
  then have "(h, files) \<in> set (hash_files md5 fs items []) \<longleftrightarrow>
      map_of (hash_files md5 fs items []) h = Some files"
    by simp
  then show ?thesis by (auto simp: map_of_hash_files)
qed

subsection \<open>The file that is kept\<close>

lemma hd_sort_key_least:
  assumes "xs \<noteq> []" and "y \<in> set xs"
  shows "f (hd (sort_key f xs)) \<le> f y"
proof -
  have ne: "sort_key f xs \<noteq> []"
  proof
    assume "sort_key f xs = []"
    then have "length (sort_key f xs) = 0" by simp
    with assms(1) show False by simp
  qed
  have "sorted (map f (sort_key f xs))" by (rule sorted_sort_key)
  moreover have "y \<in> set (sort_key f xs)" using assms(2) by simp
  ultimately show ?thesis
    using ne by (cases "sort_key f xs") auto
qed

lemma hd_sort_key_first:
  assumes "xs \<noteq> []"
  shows "hd (sort_key f xs) = hd (filter (\<lambda>y. f y = f (hd (sort_key f xs))) xs)"
proof -
  have ne: "sort_key f xs \<noteq> []"
  proof
    assume "sort_key f xs = []"
    then have "length (sort_key f xs) = 0" by simp
    with assms(1) show False by simp
  qed
  let ?k = "f (hd (sort_key f xs))"
  have "filter (\<lambda>y. f y = ?k) (sort_key f xs) = filter (\<lambda>y. f y = ?k) xs"
    by (rule sort_key_stable)
  moreover have "hd (filter (\<lambda>y. f y = ?k) (sort_key f xs)) = hd (sort_key f xs)"
    using ne by (cases "sort_key f xs") auto
  ultimately show ?thesis by simp
qed

lemma sort_key_nonempty: "xs \<noteq> [] \<Longrightarrow> sort_key f xs \<noteq> []"
  by (cases xs) (auto simp: insort_key_left_comm dest: arg_cong [where f = length])

lemma stamped_filter:
  "filter (\<lambda>y. (case y of (m, x) \<Rightarrow> - m) = - t) (map (\<lambda>x. (mtime_at fs x, x)) files)
     = map (\<lambda>x. (mtime_at fs x, x)) (filter (\<lambda>f. mtime_at fs f = t) files)"
  by (induction files) auto

lemma sorted_group_keep:
  assumes "files \<noteq> []"
  shows "hd (sorted_group fs files) \<in> set files"
    and "\<And>f. f \<in> set files \<Longrightarrow> mtime_at fs f \<le> mtime_at fs (hd (sorted_group fs files))"
    and "hd (sorted_group fs files)
           = hd (filter (\<lambda>f. mtime_at fs f = mtime_at fs (hd (sorted_group fs files))) files)"
proof -
  define ks where "ks = map (\<lambda>x. (mtime_at fs x, x)) files"
  define key :: "int \<times> path \<Rightarrow> int" where "key = (\<lambda>(m, x). - m)"
  define s where "s = sort_key key ks"
  have kne: "ks \<noteq> []" using assms by (simp add: ks_def)
  have sne: "s \<noteq> []" unfolding s_def using kne by (rule sort_key_nonempty)
  have sg: "sorted_group fs files = map snd s"
    by (simp add: sorted_group_def s_def key_def ks_def)
  have hd_s: "hd (sorted_group fs files) = snd (hd s)" unfolding sg using sne by (rule hd_map)
  have "hd s \<in> set s" using sne by (rule hd_in_set)
  then have "hd s \<in> set ks" by (simp add: s_def)
  then obtain x where x: "x \<in> set files" and hx: "hd s = (mtime_at fs x, x)"
    by (auto simp: ks_def)
  have keep: "hd (sorted_group fs files) = x" by (simp add: hd_s hx)
  show "hd (sorted_group fs files) \<in> set files" unfolding keep by (rule x)
  show "mtime_at fs f \<le> mtime_at fs (hd (sorted_group fs files))" if "f \<in> set files" for f
  proof -
    from that have "(mtime_at fs f, f) \<in> set ks" by (simp add: ks_def)
    from hd_sort_key_least [OF kne this, of key]
    have "key (hd s) \<le> key (mtime_at fs f, f)" by (simp add: s_def)
    then show ?thesis unfolding keep hx by (simp add: key_def)
  qed
  have "hd s = hd (filter (\<lambda>y. key y = key (hd s)) ks)"
    unfolding s_def using kne by (rule hd_sort_key_first)
  also have "key (hd s) = - mtime_at fs x" by (simp add: hx key_def)
  also have "filter (\<lambda>y. key y = - mtime_at fs x) ks
      = map (\<lambda>x. (mtime_at fs x, x)) (filter (\<lambda>f. mtime_at fs f = mtime_at fs x) files)"
    unfolding key_def ks_def by (rule stamped_filter)
  finally have h: "hd s = hd (map (\<lambda>x. (mtime_at fs x, x))
      (filter (\<lambda>f. mtime_at fs f = mtime_at fs x) files))" .
  have fne: "filter (\<lambda>f. mtime_at fs f = mtime_at fs x) files \<noteq> []"
    using x by (auto simp: filter_empty_conv)
  have "hd s = (\<lambda>x. (mtime_at fs x, x)) (hd (filter (\<lambda>f. mtime_at fs f = mtime_at fs x) files))"
    unfolding h using fne by (rule hd_map)
  then have "snd (hd s) = hd (filter (\<lambda>f. mtime_at fs f = mtime_at fs x) files)" by simp
  then show "hd (sorted_group fs files)
           = hd (filter (\<lambda>f. mtime_at fs f = mtime_at fs (hd (sorted_group fs files))) files)"
    unfolding keep by (simp add: hx)
qed

lemma group_entries_member:
  assumes "e \<in> set (group_entries path fs files)"
  shows "length files > 1 \<and> (\<exists>d \<in> set (tl (sorted_group fs files)).
            e = dup_entry path fs (hd (sorted_group fs files)) d)"
  using assms by (auto simp: group_entries_def split: if_splits)

lemma duplicates_of_member:
  assumes "e \<in> set (duplicates_of md5 fs path)"
  shows "\<exists>h files. (h, files) \<in> set (hash_files md5 fs (rglob fs path) [])
           \<and> e \<in> set (group_entries path fs files)"
  using assms by (auto simp: duplicates_of_def)

lemma duplicates_of_group:
  assumes "(h, files) \<in> set (hash_files md5 fs (rglob fs path) [])"
    and "e \<in> set (group_entries path fs files)"
  shows "e \<in> set (duplicates_of md5 fs path)"
  using assms by (force simp: duplicates_of_def)

subsection \<open>Exceptions that leave a call\<close>











subsection \<open>A dry run reports what a run without errors does\<close>















subsection \<open>Every file out of place is moved or reported\<close>






section \<open>The claims\<close>















text \<open>C7. Lines 66 to 71 and 184 to 189, for a regular file \<open>item\<close> that is not yet in
  \<open>target_dir\<close>. The destination is a path of \<open>target_dir\<close> that does not exist; apart
  from the source and the destination no entry of the disk changes, whether the move
  succeeds or not, so nothing is overwritten. When \<open>target_dir/name\<close> is taken, the file
  there stays as it is and the destination is \<open>stem_k.suffix\<close> for the least \<open>k \<ge> 1\<close>
  whose name is free: every smaller counter names an existing entry, and there is no
  bound on \<open>k\<close> (the search is a total function). After a successful move the
  destination holds the bytes and the time of the source.\<close>

theorem move_never_overwrites:
  assumes "lookup fs item = Some (File c m r)"
    and "parent item \<noteq> target_dir"
    and "move_unique fs item target_dir = (fs', res)"
  shows "\<exists>target. \<not> path_exists fs target \<and> parent target = target_dir
     \<and> (\<forall>q. q \<noteq> item \<and> q \<noteq> target \<longrightarrow> lookup fs' q = lookup fs q)
     \<and> (res = None \<longrightarrow> lookup fs' target = Some (File c m r) \<and> lookup fs' item = None)
     \<and> (\<not> path_exists fs (target_dir @ [name item]) \<longrightarrow> target = target_dir @ [name item])
     \<and> (path_exists fs (target_dir @ [name item]) \<longrightarrow>
          lookup fs' (target_dir @ [name item]) = lookup fs (target_dir @ [name item])
          \<and> (\<exists>k\<ge>1. target = target_dir @ [stem (name item) @ ''_'' @ str_nat k
                                               @ path_suffix (name item)]
                \<and> (\<forall>j. 1 \<le> j \<and> j < k \<longrightarrow>
                      path_exists fs (target_dir @ [stem (name item) @ ''_'' @ str_nat j
                                                     @ path_suffix (name item)]))))"
proof -
  let ?t = "free_target fs target_dir (stem (name item)) (path_suffix (name item))
               (target_dir @ [name item]) 1"
  have mv: "shutil_move fs item ?t = (fs', res)"
    using assms(3) by (simp add: move_unique_def)
  have free: "\<not> path_exists fs ?t" by (rule free_target_free)
  have par: "parent ?t = target_dir" by (rule free_target_parent) (simp add: parent_def)
  note eff = shutil_move_lookup [OF assms(1) free mv]
  have ne: "item \<noteq> target_dir @ [name item]"
    using assms(2) unfolding parent_def by (metis butlast_snoc)
  show ?thesis
  proof (intro exI [of _ ?t] conjI impI)
    show "\<not> path_exists fs ?t" by (rule free)
    show "parent ?t = target_dir" by (rule par)
    show "\<forall>q. q \<noteq> item \<and> q \<noteq> ?t \<longrightarrow> lookup fs' q = lookup fs q" using eff by blast
    show "lookup fs' ?t = Some (File c m r)" if "res = None" using eff that by blast
    show "lookup fs' item = None" if "res = None" using eff that by blast
    show "?t = target_dir @ [name item]" if "\<not> path_exists fs (target_dir @ [name item])"
      using that by (rule free_target_unchanged)
  next
    assume col: "path_exists fs (target_dir @ [name item])"
    with free have "target_dir @ [name item] \<noteq> ?t" by auto
    with eff ne show "lookup fs' (target_dir @ [name item]) = lookup fs (target_dir @ [name item])"
      by metis
    from free_target_least [OF col, of 1 target_dir "stem (name item)" "path_suffix (name item)"]
    show "\<exists>k\<ge>1. ?t = target_dir @ [stem (name item) @ ''_'' @ str_nat k @ path_suffix (name item)]
                \<and> (\<forall>j. 1 \<le> j \<and> j < k \<longrightarrow>
                      path_exists fs (target_dir @ [stem (name item) @ ''_'' @ str_nat j
                                                     @ path_suffix (name item)]))"
      by blast
  qed
qed

theorem move_never_overwrites_witness:
  "lookup crowded_fs [''dl'', ''a.png''] = Some (File ''third'' 3 True)
   \<and> parent [''dl'', ''a.png''] \<noteq> [''dl'', ''Images'']
   \<and> path_exists crowded_fs ([''dl'', ''Images''] @ [name [''dl'', ''a.png'']])
   \<and> snd (move_unique crowded_fs [''dl'', ''a.png''] [''dl'', ''Images'']) = None
   \<and> (\<exists>target. \<not> path_exists crowded_fs target
        \<and> lookup (fst (move_unique crowded_fs [''dl'', ''a.png''] [''dl'', ''Images''])) target
             = Some (File ''third'' 3 True)
        \<and> lookup (fst (move_unique crowded_fs [''dl'', ''a.png''] [''dl'', ''Images'']))
             [''dl'', ''Images'', ''a.png''] = Some (File ''first'' 1 True))"
proof -
  have src: "lookup crowded_fs [''dl'', ''a.png''] = Some (File ''third'' 3 True)" by code_simp
  have par: "parent [''dl'', ''a.png''] \<noteq> [''dl'', ''Images'']" by code_simp
  have col: "path_exists crowded_fs ([''dl'', ''Images''] @ [name [''dl'', ''a.png'']])"
    by code_simp
  have ok: "snd (move_unique crowded_fs [''dl'', ''a.png''] [''dl'', ''Images'']) = None"
    by code_simp
  have first: "lookup crowded_fs ([''dl'', ''Images''] @ [name [''dl'', ''a.png'']])
      = Some (File ''first'' 1 True)" by code_simp
  have nm: "[''dl'', ''Images''] @ [name [''dl'', ''a.png'']] = [''dl'', ''Images'', ''a.png'']"
    by code_simp
  have mv: "move_unique crowded_fs [''dl'', ''a.png''] [''dl'', ''Images'']
      = (fst (move_unique crowded_fs [''dl'', ''a.png''] [''dl'', ''Images'']), None)"
    using ok by (simp add: prod_eq_iff)
  from move_never_overwrites [OF src par mv]
  obtain target where free: "\<not> path_exists crowded_fs target"
    and moved: "None = (None :: exn option) \<longrightarrow>
       lookup (fst (move_unique crowded_fs [''dl'', ''a.png''] [''dl'', ''Images''])) target
         = Some (File ''third'' 3 True)
       \<and> lookup (fst (move_unique crowded_fs [''dl'', ''a.png''] [''dl'', ''Images'']))
           [''dl'', ''a.png''] = None"
    and kept: "path_exists crowded_fs ([''dl'', ''Images''] @ [name [''dl'', ''a.png'']]) \<longrightarrow>
       lookup (fst (move_unique crowded_fs [''dl'', ''a.png''] [''dl'', ''Images'']))
           ([''dl'', ''Images''] @ [name [''dl'', ''a.png'']])
         = lookup crowded_fs ([''dl'', ''Images''] @ [name [''dl'', ''a.png'']])
       \<and> (\<exists>k\<ge>1. target = [''dl'', ''Images''] @ [stem (name [''dl'', ''a.png'']) @ ''_'' @ str_nat k
                                               @ path_suffix (name [''dl'', ''a.png''])]
                \<and> (\<forall>j. 1 \<le> j \<and> j < k \<longrightarrow>
                      path_exists crowded_fs ([''dl'', ''Images''] @ [stem (name [''dl'', ''a.png''])
                          @ ''_'' @ str_nat j @ path_suffix (name [''dl'', ''a.png''])])))"
    by blast
  from kept col first have "lookup (fst (move_unique crowded_fs [''dl'', ''a.png''] [''dl'', ''Images'']))
           ([''dl'', ''Images''] @ [name [''dl'', ''a.png'']]) = Some (File ''first'' 1 True)"
    by simp
  then have k: "lookup (fst (move_unique crowded_fs [''dl'', ''a.png''] [''dl'', ''Images'']))
           [''dl'', ''Images'', ''a.png''] = Some (File ''first'' 1 True)"
    unfolding nm .
  from moved have m: "lookup (fst (move_unique crowded_fs [''dl'', ''a.png''] [''dl'', ''Images''])) target
         = Some (File ''third'' 3 True)" by simp
  from src par col ok free m k show ?thesis by blast
qed

text \<open>C6. If a run of organize-by-type with \<open>dry_run\<close> false returns a report without
  errors, then a second run on the disk it left moves nothing: it returns the empty
  report and leaves that disk as it is. After the first run every regular file below the
  root lies in \<open>root/Category\<close> for its own category (a renamed file keeps its suffix, or
  gets one that no category lists), so the second run skips each of them.\<close>

theorem organize_by_type_idempotent:
  assumes "organize_by_type_sync home fs downloads_path False = (fs1, Inr (Success r1))"
    and "mr_errors r1 = []"
  shows "organize_by_type_sync home fs1 downloads_path False =
           (fs1, Inr (Success \<lparr>mr_moved_files = [], mr_total_files = 0, mr_folders = 0,
                               mr_errors = [], mr_dry_run = False\<rparr>))"
proof -
  let ?path = "get_downloads_path home downloads_path"
  have root: "path_exists fs ?path"
    using assms(1) by (auto simp: organize_by_type_sync_def Let_def split: if_splits)
  obtain fs' res where loop: "organize_by_type_loop ?path False (rglob fs ?path) (fs, [], []) = (fs', res)"
    by (cases "organize_by_type_loop ?path False (rglob fs ?path) (fs, [], [])")
  from assms(1) root loop obtain moved_files errors where res: "res = Inr (moved_files, errors)"
    and fs': "fs' = fs1" and r1: "r1 = move_report_of moved_files errors False"
    by (cases res) (auto simp: organize_by_type_sync_def Let_def split: prod.splits)
  from r1 assms(2) have "errors = []" by (simp add: move_report_of_def)
  with loop res fs' have run: "organize_by_type_loop ?path False (rglob fs ?path) (fs, [], [])
      = (fs1, Inr (moved_files, []))" by simp
  have second: "organize_by_type_loop ?path False (rglob fs1 ?path) (fs1, [], []) = (fs1, Inr ([], []))"
   and root1: "path_exists fs1 ?path"
  proof -
    show "organize_by_type_loop ?path False (rglob fs1 ?path) (fs1, [], []) = (fs1, Inr ([], []))"
    proof (cases "is_dir fs ?path")
      case False
      then have "rglob fs ?path = []" by (simp add: rglob_def)
      with run have "fs1 = fs" by simp
      with False show ?thesis by (simp add: rglob_def)
    next
      case True
      have inv: "q \<in> set (rglob fs ?path) \<or> placed ?path q"
        if "is_file fs q" "strict_prefix ?path q" for q
        using that True by (auto simp: rglob_iff path_exists_def is_file_def split: option.splits)
      from organize_by_type_loop_places [OF run inv]
      have "\<forall>q. is_file fs1 q \<and> strict_prefix ?path q \<longrightarrow> placed ?path q" by blast
      then have "\<And>q. q \<in> set (rglob fs1 ?path) \<Longrightarrow> is_file fs1 q \<Longrightarrow> placed ?path q"
        by (auto dest: rglob_strict_prefix)
      then show ?thesis by (rule organize_by_type_loop_skip)
    qed
    show "path_exists fs1 ?path"
    proof (cases "is_dir fs ?path")
      case False
      then have "rglob fs ?path = []" by (simp add: rglob_def)
      with run have "fs1 = fs" by simp
      with root show ?thesis by simp
    next
      case True
      then obtain w where "lookup fs ?path = Some (Dir w)"
        by (auto simp: is_dir_def split: option.splits node.splits)
      moreover have inv: "q \<in> set (rglob fs ?path) \<or> placed ?path q"
        if "is_file fs q" "strict_prefix ?path q" for q
        using that True by (auto simp: rglob_iff path_exists_def is_file_def split: option.splits)
      from organize_by_type_loop_places [OF run inv]
      have "\<forall>d w. lookup fs d = Some (Dir w) \<longrightarrow> lookup fs1 d = Some (Dir w)" by blast
      ultimately show ?thesis by (auto simp: path_exists_def)
    qed
  qed
  then show ?thesis
    by (simp add: organize_by_type_sync_def Let_def move_report_of_def)
qed

theorem organize_by_type_idempotent_witness:
  "organize_by_type_sync [] messy_fs (Some [''dl'']) False =
     (tidy_fs, Inr (Success
        \<lparr>mr_moved_files = [(''Images'', [''a.PNG'', ''a.PNG'']), (''Documents'', [''notes.txt'']),
                           (''Other'', [''.bashrc''])],
         mr_total_files = 4, mr_folders = 3, mr_errors = [], mr_dry_run = False\<rparr>))
   \<and> organize_by_type_sync [] tidy_fs (Some [''dl'']) False =
     (tidy_fs, Inr (Success \<lparr>mr_moved_files = [], mr_total_files = 0, mr_folders = 0,
                               mr_errors = [], mr_dry_run = False\<rparr>))"
proof -
  have first: "organize_by_type_sync [] messy_fs (Some [''dl'']) False =
     (tidy_fs, Inr (Success
        \<lparr>mr_moved_files = [(''Images'', [''a.PNG'', ''a.PNG'']), (''Documents'', [''notes.txt'']),
                           (''Other'', [''.bashrc''])],
         mr_total_files = 4, mr_folders = 3, mr_errors = [], mr_dry_run = False\<rparr>))"
    by code_simp
  from organize_by_type_idempotent [OF first] first show ?thesis by simp
qed

text \<open>C4. Let \<open>files\<close> be the files of the listing whose digest is \<open>h\<close>, in the order of
  the listing, at least two of them. find-duplicates returns a report and elects one
  member \<open>keep\<close>: no member is newer, and among the members with that modification time
  it is the first of the listing. Every other member is reported with its relative path,
  its size and the relative path of \<open>keep\<close> as the original, and \<open>keep\<close> itself is never
  reported as a duplicate. The count is the length of the list, and the space saved is
  the sum of the reported sizes, in binary megabytes rounded to two decimals.\<close>

theorem newest_duplicate_is_kept:
  assumes root: "path_exists fs path"
    and grp: "files = filter (\<lambda>p. hashable md5 fs p = Some h) (rglob fs path)"
    and two: "length files > 1"
  shows "\<exists>fs' rep keep.
     find_duplicates_sync md5 home fs (Some path) delete_duplicates = (fs', Inr (Success rep))
     \<and> keep \<in> set files
     \<and> (\<forall>f \<in> set files. mtime_at fs f \<le> mtime_at fs keep)
     \<and> keep = hd (filter (\<lambda>f. mtime_at fs f = mtime_at fs keep) files)
     \<and> (\<forall>f \<in> set files. f \<noteq> keep \<longrightarrow>
           \<lparr>dup_file = relative_to f path, dup_size = size_at fs f,
            dup_original = relative_to keep path\<rparr> \<in> set (dr_duplicates rep))
     \<and> relative_to keep path \<notin> dup_file ` set (dr_duplicates rep)
     \<and> dr_count rep = length (dr_duplicates rep)
     \<and> dr_space_saved_mb rep = size_mb (sum_list (map dup_size (dr_duplicates rep)))"
proof -
  have p: "get_downloads_path home (Some path) = path" by (simp add: get_downloads_path_def)
  let ?s = "sorted_group fs files"
  let ?keep = "hd ?s"
  let ?D = "duplicates_of md5 fs path"
  have ne: "files \<noteq> []" using two by auto
  have ing: "(h, files) \<in> set (hash_files md5 fs (rglob fs path) [])"
    using grp ne by (simp add: hash_files_group_iff)
  have dist: "distinct files" unfolding grp by (simp add: distinct_rglob)
  have ds: "distinct ?s" using dist by (rule distinct_sorted_group)
  have sne: "?s \<noteq> []" using ne length_sorted_group [of fs files] by auto
  then have hdtl: "?s = ?keep # tl ?s" by simp
  have under: "strict_prefix path f" if "f \<in> set files" for f
    using that unfolding grp by (auto intro: rglob_strict_prefix)
  from find_duplicates_sync_char [of fs home "Some path" md5 delete_duplicates] root
  obtain fs' where run: "find_duplicates_sync md5 home fs (Some path) delete_duplicates =
           (fs', Inr (Success
              \<lparr>dr_duplicates = ?D, dr_count = length ?D,
               dr_space_saved_mb = size_mb (sum_list (map dup_size ?D)),
               dr_deleted = delete_duplicates\<rparr>))"
    unfolding p by blast
  have listed: "\<lparr>dup_file = relative_to f path, dup_size = size_at fs f,
            dup_original = relative_to ?keep path\<rparr> \<in> set ?D"
    if f: "f \<in> set files" "f \<noteq> ?keep" for f
  proof -
    from f(1) have "f \<in> set ?s" by (simp add: set_sorted_group)
    with hdtl f(2) have "f \<in> set (tl ?s)" by (metis set_ConsD)
    then have "dup_entry path fs ?keep f \<in> set (group_entries path fs files)"
      using two by (simp add: group_entries_def)
    from duplicates_of_group [OF ing this] show ?thesis by (simp add: dup_entry_def)
  qed
  have not_dup: "relative_to ?keep path \<notin> dup_file ` set ?D"
  proof
    assume "relative_to ?keep path \<in> dup_file ` set ?D"
    then obtain e where e: "e \<in> set ?D" and rel: "dup_file e = relative_to ?keep path" by auto
    from duplicates_of_member [OF e] obtain h' fl
      where g': "(h', fl) \<in> set (hash_files md5 fs (rglob fs path) [])"
        and eg: "e \<in> set (group_entries path fs fl)" by blast
    from group_entries_member [OF eg] obtain d where d: "d \<in> set (tl (sorted_group fs fl))"
      and ed: "e = dup_entry path fs (hd (sorted_group fs fl)) d" and two': "length fl > 1"
      by blast
    have fl: "fl = filter (\<lambda>p. hashable md5 fs p = Some h') (rglob fs path)"
      using g' by (simp add: hash_files_group_iff)
    have "d \<in> set (sorted_group fs fl)" using d by (rule list.set_sel(2) [rotated]) (use d in auto)
    then have dfl: "d \<in> set fl" by (simp add: set_sorted_group)
    then have du: "strict_prefix path d" unfolding fl by (auto intro: rglob_strict_prefix)
    have kf: "?keep \<in> set files" using ne by (rule sorted_group_keep(1))
    have "relative_to d path = relative_to ?keep path" using rel ed by (simp add: dup_entry_def)
    with du under [OF kf] have dk: "d = ?keep" by (rule relative_to_inject)
    from dfl have "hashable md5 fs d = Some h'" unfolding fl by simp
    moreover from kf have "hashable md5 fs ?keep = Some h" unfolding grp by simp
    ultimately have "h' = h" using dk by simp
    then have "fl = files" using fl grp by simp
    with d dk have "?keep \<in> set (tl ?s)" by simp
    with ds hdtl show False by (metis distinct.simps(2))
  qed
  show ?thesis
  proof (intro exI conjI)
    show "find_duplicates_sync md5 home fs (Some path) delete_duplicates =
           (fs', Inr (Success
              \<lparr>dr_duplicates = ?D, dr_count = length ?D,
               dr_space_saved_mb = size_mb (sum_list (map dup_size ?D)),
               dr_deleted = delete_duplicates\<rparr>))" by (rule run)
    show "?keep \<in> set files" using ne by (rule sorted_group_keep(1))
    show "\<forall>f \<in> set files. mtime_at fs f \<le> mtime_at fs ?keep"
      using sorted_group_keep(2) [OF ne] by blast
    show "?keep = hd (filter (\<lambda>f. mtime_at fs f = mtime_at fs ?keep) files)"
      using ne by (rule sorted_group_keep(3))
    show "\<forall>f \<in> set files. f \<noteq> ?keep \<longrightarrow>
           \<lparr>dup_file = relative_to f path, dup_size = size_at fs f,
            dup_original = relative_to ?keep path\<rparr>
           \<in> set (dr_duplicates \<lparr>dr_duplicates = ?D, dr_count = length ?D,
               dr_space_saved_mb = size_mb (sum_list (map dup_size ?D)),
               dr_deleted = delete_duplicates\<rparr>)"
      using listed by simp
    show "relative_to ?keep path \<notin> dup_file ` set (dr_duplicates \<lparr>dr_duplicates = ?D,
               dr_count = length ?D,
               dr_space_saved_mb = size_mb (sum_list (map dup_size ?D)),
               dr_deleted = delete_duplicates\<rparr>)"
      using not_dup by simp
    show "dr_count \<lparr>dr_duplicates = ?D, dr_count = length ?D,
               dr_space_saved_mb = size_mb (sum_list (map dup_size ?D)),
               dr_deleted = delete_duplicates\<rparr>
         = length (dr_duplicates \<lparr>dr_duplicates = ?D, dr_count = length ?D,
               dr_space_saved_mb = size_mb (sum_list (map dup_size ?D)),
               dr_deleted = delete_duplicates\<rparr>)" by simp
    show "dr_space_saved_mb \<lparr>dr_duplicates = ?D, dr_count = length ?D,
               dr_space_saved_mb = size_mb (sum_list (map dup_size ?D)),
               dr_deleted = delete_duplicates\<rparr>
         = size_mb (sum_list (map dup_size (dr_duplicates \<lparr>dr_duplicates = ?D,
               dr_count = length ?D,
               dr_space_saved_mb = size_mb (sum_list (map dup_size ?D)),
               dr_deleted = delete_duplicates\<rparr>)))" by simp
  qed
qed

theorem newest_duplicate_is_kept_witness:
  "path_exists abc_fs [''dl'']
   \<and> [[''dl'', ''A.txt''], [''dl'', ''B.txt'']]
       = filter (\<lambda>p. hashable id abc_fs p = Some ''same'') (rglob abc_fs [''dl''])
   \<and> length [[''dl'', ''A.txt''], [''dl'', ''B.txt'']] > 1
   \<and> (\<exists>fs' rep. find_duplicates_sync id [] abc_fs (Some [''dl'']) False
                     = (fs', Inr (Success rep))
        \<and> \<lparr>dup_file = [''A.txt''], dup_size = 4, dup_original = [''B.txt'']\<rparr>
            \<in> set (dr_duplicates rep)
        \<and> [''B.txt''] \<notin> dup_file ` set (dr_duplicates rep))"
proof -
  let ?A = "[''dl'', ''A.txt'']" and ?B = "[''dl'', ''B.txt'']"
  have root: "path_exists abc_fs [''dl'']" by code_simp
  have grp: "[?A, ?B] = filter (\<lambda>p. hashable id abc_fs p = Some ''same'') (rglob abc_fs [''dl''])"
    by code_simp
  have two: "length [?A, ?B] > 1" by simp
  have ma: "mtime_at abc_fs ?A = 10" and mb: "mtime_at abc_fs ?B = 20"
    and sa: "size_at abc_fs ?A = 4" by code_simp+
  have ra: "relative_to ?A [''dl''] = [''A.txt'']" and rb: "relative_to ?B [''dl''] = [''B.txt'']"
    by (simp_all add: relative_to_def)
  from newest_duplicate_is_kept [OF root grp two, of "[]" False]
  obtain fs' rep keep where run: "find_duplicates_sync id [] abc_fs (Some [''dl'']) False
                     = (fs', Inr (Success rep))"
    and mem: "keep \<in> set [?A, ?B]"
    and newest: "\<forall>f \<in> set [?A, ?B]. mtime_at abc_fs f \<le> mtime_at abc_fs keep"
    and listed: "\<forall>f \<in> set [?A, ?B]. f \<noteq> keep \<longrightarrow>
           \<lparr>dup_file = relative_to f [''dl''], dup_size = size_at abc_fs f,
            dup_original = relative_to keep [''dl'']\<rparr> \<in> set (dr_duplicates rep)"
    and nodup: "relative_to keep [''dl''] \<notin> dup_file ` set (dr_duplicates rep)"
    by blast
  from newest have "mtime_at abc_fs ?B \<le> mtime_at abc_fs keep" by simp
  with mem ma mb have keep: "keep = ?B" by auto
  from listed keep have "\<lparr>dup_file = relative_to ?A [''dl''], dup_size = size_at abc_fs ?A,
            dup_original = relative_to ?B [''dl'']\<rparr> \<in> set (dr_duplicates rep)" by simp
  then have l: "\<lparr>dup_file = [''A.txt''], dup_size = 4, dup_original = [''B.txt'']\<rparr>
            \<in> set (dr_duplicates rep)" by (simp only: ra rb sa)
  have n: "[''B.txt''] \<notin> dup_file ` set (dr_duplicates rep)"
    using nodup unfolding keep rb .
  from root grp two run l n show ?thesis by blast
qed




end
